theory Spec2Isabelle
  imports Complex_Main
begin

section \<open>Python strings\<close>

text \<open>
  A Python \<open>str\<close> is a sequence of Unicode code points and \<open>len\<close> counts code points.
  The scanner looks for U+2014 and U+2013, which are no 8-bit characters, so a string is a
  list of code points here.
\<close>

type_synonym pystr = "nat list"

definition ascii :: "string \<Rightarrow> pystr" where
  "ascii s = map of_char s"

text \<open>
  \<open>str.isspace\<close> for one code point, which is what \<open>str.strip()\<close> removes and what the
  regular expression \<open>\s\<close> matches on a \<open>str\<close> pattern: U+0009..U+000D, U+001C..U+0020,
  U+0085, U+00A0, U+1680, U+2000..U+200A, U+2028, U+2029, U+202F, U+205F, U+3000.
\<close>

definition isspace :: "nat \<Rightarrow> bool" where
  "isspace c =
     ((9 \<le> c \<and> c \<le> 13) \<or> (28 \<le> c \<and> c \<le> 32) \<or> c = 133 \<or> c = 160 \<or> c = 5760 \<or>
      (8192 \<le> c \<and> c \<le> 8202) \<or> c = 8232 \<or> c = 8233 \<or> c = 8239 \<or> c = 8287 \<or>
      c = 12288)"

definition lstrip :: "pystr \<Rightarrow> pystr" where
  "lstrip s = dropWhile isspace s"

definition rstrip :: "pystr \<Rightarrow> pystr" where
  "rstrip s = rev (dropWhile isspace (rev s))"

definition strip :: "pystr \<Rightarrow> pystr" where
  "strip s = rstrip (lstrip s)"

text \<open>\<open>s.startswith(p)\<close> and the substring test \<open>p in s\<close>.\<close>

definition startswith :: "pystr \<Rightarrow> pystr \<Rightarrow> bool" where
  "startswith s p = (take (length p) s = p)"

fun contains :: "pystr \<Rightarrow> pystr \<Rightarrow> bool" where
  "contains p [] = (p = [])"
| "contains p (c # cs) = (startswith (c # cs) p \<or> contains p cs)"

text \<open>\<open>s.split(sep)\<close> for a separator of one code point: never an empty list.\<close>

fun cons_first :: "'a \<Rightarrow> 'a list list \<Rightarrow> 'a list list" where
  "cons_first c [] = [[c]]"
| "cons_first c (p # ps) = (c # p) # ps"

fun split_on :: "nat \<Rightarrow> pystr \<Rightarrow> pystr list" where
  "split_on sep [] = [[]]"
| "split_on sep (c # cs) =
     (if c = sep then [] # split_on sep cs else cons_first c (split_on sep cs))"

text \<open>\<open>sep.join(xs)\<close>.\<close>

fun join :: "pystr \<Rightarrow> pystr list \<Rightarrow> pystr" where
  "join sep [] = []"
| "join sep [x] = x"
| "join sep (x # y # ys) = x @ sep @ join sep (y # ys)"

text \<open>
  A slice \<open>xs[a:b]\<close>; \<open>None\<close> is an omitted bound. A negative bound counts from the end,
  and every bound is clamped to the list.
\<close>

definition clamp_index :: "int \<Rightarrow> int \<Rightarrow> int" where
  "clamp_index n i = (if i < 0 then max 0 (i + n) else min i n)"

definition py_slice :: "'a list \<Rightarrow> int option \<Rightarrow> int option \<Rightarrow> 'a list" where
  "py_slice xs a b =
     (let n = int (length xs);
          lo = (case a of None \<Rightarrow> 0 | Some i \<Rightarrow> clamp_index n i);
          hi = (case b of None \<Rightarrow> n | Some j \<Rightarrow> clamp_index n j)
      in take (nat (hi - lo)) (drop (nat lo) xs))"

text \<open>
  \<open>str.upper()\<close> maps each code point on its own (one code point can become several).
  On ASCII it maps \<open>a..z\<close> to \<open>A..Z\<close>; beyond ASCII it follows the Unicode case tables
  of the interpreter, which are no part of the repository: \<open>tbl\<close> stands for them.
\<close>

definition upper_cp :: "(nat \<Rightarrow> pystr) \<Rightarrow> nat \<Rightarrow> pystr" where
  "upper_cp tbl c =
     (if c < 128 then (if 97 \<le> c \<and> c \<le> 122 then [c - 32] else [c]) else tbl c)"

definition upper :: "(nat \<Rightarrow> pystr) \<Rightarrow> pystr \<Rightarrow> pystr" where
  "upper tbl s = concat (map (upper_cp tbl) s)"

text \<open>
  The class \<open>\w\<close> of a \<open>str\<close> pattern: alphanumeric code points and the underscore.
  On ASCII the alphanumerics are \<open>0..9\<close>, \<open>A..Z\<close>, \<open>a..z\<close>; beyond ASCII the Unicode
  tables decide (\<open>alnum\<close> stands for them).
\<close>

definition isalnum :: "(nat \<Rightarrow> bool) \<Rightarrow> nat \<Rightarrow> bool" where
  "isalnum alnum c =
     (if c < 128 then (48 \<le> c \<and> c \<le> 57) \<or> (65 \<le> c \<and> c \<le> 90) \<or> (97 \<le> c \<and> c \<le> 122)
      else alnum c)"

definition word_char :: "(nat \<Rightarrow> bool) \<Rightarrow> nat \<Rightarrow> bool" where
  "word_char alnum c = (isalnum alnum c \<or> c = 95)"

text \<open>
  The two tables on U+0080..U+00FF, for running the model on inputs of that range:
  the letters and numeric signs of Latin-1, and its case mapping (U+00B5 to U+039C,
  U+00DF to \<open>SS\<close>, U+00FF to U+0178).
\<close>

definition latin1_alnum :: "nat \<Rightarrow> bool" where
  "latin1_alnum c =
     (c = 170 \<or> c = 178 \<or> c = 179 \<or> c = 181 \<or> c = 185 \<or> c = 186 \<or>
      c = 188 \<or> c = 189 \<or> c = 190 \<or>
      (192 \<le> c \<and> c \<le> 214) \<or> (216 \<le> c \<and> c \<le> 246) \<or> (248 \<le> c \<and> c \<le> 255))"

definition latin1_upper :: "nat \<Rightarrow> pystr" where
  "latin1_upper c =
     (if c = 181 then [924]
      else if c = 223 then [83, 83]
      else if c = 255 then [376]
      else if (224 \<le> c \<and> c \<le> 246) \<or> (248 \<le> c \<and> c \<le> 254) then [c - 32]
      else [c])"

section \<open>Stage 1: the candidate scanner (main.py)\<close>

definition NL :: nat where "NL = 10"
definition DQUOTE :: nat where "DQUOTE = 34"
definition SQUOTE :: nat where "SQUOTE = 39"
definition EM_DASH :: nat where "EM_DASH = 8212"
definition EN_DASH :: nat where "EN_DASH = 8211"

text \<open>The condition of the \<open>if\<close> in \<open>extract_potential_dialogue\<close>, clause by clause.\<close>

definition is_candidate :: "pystr \<Rightarrow> bool" where
  "is_candidate line =
     (contains [DQUOTE] line \<or> contains [SQUOTE] line \<or>
      startswith line [DQUOTE] \<or> startswith line [SQUOTE] \<or>
      contains [EM_DASH] line \<or> contains [EN_DASH] line)"

text \<open>
  The loop \<open>for i, line in enumerate(lines)\<close>: \<open>i\<close> is the 0-based index of the line, the
  recorded line number is \<open>i + 1\<close>.
\<close>

fun scan_lines :: "nat \<Rightarrow> pystr list \<Rightarrow> (pystr \<times> int) list" where
  "scan_lines i [] = []"
| "scan_lines i (l # ls) =
     (let line = strip l in
      if line = [] then scan_lines (Suc i) ls
      else if is_candidate line then (line, int i + 1) # scan_lines (Suc i) ls
      else scan_lines (Suc i) ls)"

definition extract_potential_dialogue :: "pystr \<Rightarrow> (pystr \<times> int) list" where
  "extract_potential_dialogue text = scan_lines 0 (split_on NL text)"

text \<open>
  The simpler predicate: the line holds at least one of the four marker characters.
\<close>

definition has_marker :: "pystr \<Rightarrow> bool" where
  "has_marker line =
     (DQUOTE \<in> set line \<or> SQUOTE \<in> set line \<or> EM_DASH \<in> set line \<or> EN_DASH \<in> set line)"

subsection \<open>The context window and the attributor\<close>

text \<open>
  The window of \<open>parse_book\<close>: \<open>start_idx = max(0, line_number - 4)\<close>,
  \<open>end_idx = min(len(all_lines), line_number + 3)\<close>, the lines of the slice trimmed and the
  empty ones dropped.
\<close>

definition context_window :: "pystr list \<Rightarrow> int \<Rightarrow> pystr list" where
  "context_window all_lines line_number =
     (let start_idx = max 0 (line_number - 4);
          end_idx = min (int (length all_lines)) (line_number + 3)
      in map strip (filter (\<lambda>line. strip line \<noteq> [])
           (py_slice all_lines (Some start_idx) (Some end_idx))))"

text \<open>
  The backend. A call either raises (any exception inside the \<open>try\<close> of \<open>query_ollama\<close>:
  transport failure, timeout, a body that is no JSON object with a string) or answers with
  a status code and the \<open>response\<close> field of its JSON body (\<open>None\<close>: the field is absent).
  The backend is given the URL, the model and the prompt; the constant sampling options are
  left out.
\<close>

datatype reply = Raised | Response int "pystr option"

type_synonym backend = "pystr \<Rightarrow> pystr \<Rightarrow> pystr \<Rightarrow> reply"

record BookDialogParser =
  ollama_model :: pystr
  ollama_url :: pystr
  characters :: "pystr set"

definition init_parser :: "pystr \<Rightarrow> pystr \<Rightarrow> BookDialogParser" where
  "init_parser model url = \<lparr>ollama_model = model, ollama_url = url, characters = {}\<rparr>"

record DialogueLine =
  dl_text :: pystr
  speaker :: pystr
  line_number :: int
  confidence :: real

definition query_ollama :: "backend \<Rightarrow> BookDialogParser \<Rightarrow> pystr \<Rightarrow> pystr" where
  "query_ollama post self prompt =
     (case post (ollama_url self @ ascii ''/api/generate'') (ollama_model self) prompt of
        Raised \<Rightarrow> []
      | Response status_code body \<Rightarrow>
          if status_code = 200 then strip (case body of None \<Rightarrow> [] | Some r \<Rightarrow> r) else [])"

definition UNKNOWN :: pystr where "UNKNOWN = ascii ''UNKNOWN''"
definition NARRATOR :: pystr where "NARRATOR = ascii ''NARRATOR''"

definition PROMPT_HEAD :: pystr where
  "PROMPT_HEAD = [NL] @
     ascii ''Analyze this text excerpt and identify who is speaking the dialogue in quotes.'' @
     [NL, NL] @ ascii ''Text:'' @ [NL]"

definition PROMPT_TAIL :: pystr where
  "PROMPT_TAIL = [NL, NL] @ ascii ''Instructions:'' @ [NL] @
     ascii ''- Look for the dialogue in quotation marks'' @ [NL] @
     ascii ''- Identify the speaker based on context clues (dialogue tags, narrative descriptions)'' @ [NL] @
     ascii ''- If no clear speaker is identified, respond with '' @ [DQUOTE] @ NARRATOR @ [DQUOTE] @
     ascii '' for narrative text or '' @ [DQUOTE] @ UNKNOWN @ [DQUOTE] @
     ascii '' for unclear dialogue'' @ [NL] @
     ascii ''- Respond with ONLY the character name or NARRATOR/UNKNOWN'' @ [NL] @
     ascii ''- Use consistent character names (e.g., always '' @ [DQUOTE] @ ascii ''John'' @ [DQUOTE] @
     ascii '' not '' @ [DQUOTE] @ ascii ''John Smith'' @ [DQUOTE] @ ascii '' then '' @
     [DQUOTE] @ ascii ''John'' @ [DQUOTE] @ ascii '')'' @ [NL, NL] @ ascii ''Speaker:''"

text \<open>
  The context sent to the backend:
  \<open>"\n".join(context_lines[-3:] + [dialogue_line] + context_lines[:2])\<close>.
\<close>

definition build_context :: "pystr \<Rightarrow> pystr list \<Rightarrow> pystr" where
  "build_context dialogue_line context_lines =
     join [NL] (py_slice context_lines (Some (- 3)) None @ [dialogue_line] @
                py_slice context_lines None (Some 2))"

text \<open>
  \<open>identify_speaker\<close> returns the pair (speaker, confidence) and the parser with its
  character set updated. The confidences are the float literals \<open>0.8\<close> and \<open>0.3\<close>; no
  arithmetic is done on them, so they stand here as the reals of the same decimals.
\<close>

definition identify_speaker ::
  "(nat \<Rightarrow> pystr) \<Rightarrow> backend \<Rightarrow> BookDialogParser \<Rightarrow> pystr \<Rightarrow> pystr list \<Rightarrow>
   (pystr \<times> real) \<times> BookDialogParser" where
  "identify_speaker tbl post self dialogue_line context_lines =
     (let context = build_context dialogue_line context_lines;
          prompt = PROMPT_HEAD @ context @ PROMPT_TAIL;
          response = query_ollama post self prompt;
          speaker = upper tbl (strip response);
          confidence = (if speaker \<notin> set [UNKNOWN, NARRATOR] then 0.8 else 0.3);
          self' = (if speaker \<notin> set [UNKNOWN, NARRATOR, []]
                   then self\<lparr>characters := insert speaker (characters self)\<rparr> else self)
      in ((speaker, confidence), self'))"

text \<open>
  The loop of \<open>parse_book\<close> over the candidates; \<open>i\<close> counts the backend calls, so the
  backend may answer the same prompt differently on different calls.
\<close>

fun attribute_all ::
  "(nat \<Rightarrow> pystr) \<Rightarrow> (nat \<Rightarrow> backend) \<Rightarrow> pystr list \<Rightarrow> nat \<Rightarrow> (pystr \<times> int) list \<Rightarrow>
   BookDialogParser \<Rightarrow> DialogueLine list \<times> BookDialogParser" where
  "attribute_all tbl post all_lines i [] self = ([], self)"
| "attribute_all tbl post all_lines i ((dialogue_line, n) # cands) self =
     (let context_lines = context_window all_lines n;
          ((sp, conf), self') = identify_speaker tbl (post i) self dialogue_line context_lines;
          (rest, self'') = attribute_all tbl post all_lines (Suc i) cands self'
      in (\<lparr>dl_text = dialogue_line, speaker = sp, line_number = n, confidence = conf\<rparr> # rest,
          self''))"

text \<open>\<open>parse_book\<close>; the file is \<open>None\<close> when reading it raises.\<close>

definition parse_book ::
  "(nat \<Rightarrow> pystr) \<Rightarrow> (nat \<Rightarrow> backend) \<Rightarrow> pystr option \<Rightarrow> BookDialogParser \<Rightarrow>
   DialogueLine list \<times> BookDialogParser" where
  "parse_book tbl post file self =
     (case file of
        None \<Rightarrow> ([], self)
      | Some text \<Rightarrow>
          attribute_all tbl post (split_on NL text) 0 (extract_potential_dialogue text) self)"

text \<open>
  Two backends for running the model: one that is down (every call raises), and one that
  answers the first call with a name, the second with a sentinel in lower case, and is down
  afterwards.
\<close>

definition backend_down :: backend where
  "backend_down url model request = Raised"

definition demo_backend :: "nat \<Rightarrow> backend" where
  "demo_backend i url model request =
     (if i = 0 then Response 200 (Some [32, 65, 108, 32])
      else if i = 1 then Response 200 (Some (ascii ''narrator''))
      else Raised)"

section \<open>Stage 2: chunking, voices and file names (openaifm.py)\<close>

subsection \<open>The chunker\<close>

text \<open>
  \<open>re.split(r'(?<=[.!?])\s+', text)\<close>: the text is cut at every run of whitespace that
  directly follows \<open>.\<close>, \<open>!\<close> or \<open>?\<close>; the run is dropped, the pieces are kept in
  order. The character before a whitespace character inside a run is whitespace, so a
  match can only start at the first character of a run, and \<open>\s+\<close> takes the whole run.
\<close>

definition sentence_end :: "nat \<Rightarrow> bool" where
  "sentence_end c = (c = 46 \<or> c = 33 \<or> c = 63)"

function re_split_sentences :: "pystr \<Rightarrow> pystr list" where
  "re_split_sentences [] = [[]]"
| "re_split_sentences (c # cs) =
     (if sentence_end c \<and> cs \<noteq> [] \<and> isspace (hd cs)
      then [c] # re_split_sentences (dropWhile isspace cs)
      else cons_first c (re_split_sentences cs))"
  by pat_completeness auto
termination
  by (relation "measure length") (auto simp: le_imp_less_Suc length_dropWhile_le)

text \<open>One round of the loop over the sentences; the state is (chunks, current_chunk).\<close>

definition pack_step :: "int \<Rightarrow> pystr list \<times> pystr \<Rightarrow> pystr \<Rightarrow> pystr list \<times> pystr" where
  "pack_step max_length st sentence =
     (case st of (chunks, current_chunk) \<Rightarrow>
        if int (length current_chunk) + int (length sentence) + 1 \<le> max_length
        then (chunks, current_chunk @ sentence @ [32])
        else ((if current_chunk \<noteq> [] then chunks @ [strip current_chunk] else chunks),
              sentence @ [32]))"

definition chunk_text :: "pystr \<Rightarrow> int \<Rightarrow> pystr list" where
  "chunk_text text max_length =
     (if int (length text) \<le> max_length then [text]
      else (case foldl (pack_step max_length) ([], []) (re_split_sentences text) of
              (chunks, current_chunk) \<Rightarrow>
                if current_chunk \<noteq> [] then chunks @ [strip current_chunk] else chunks))"

text \<open>
  The whitespace normalisation of \<open>clean_text_for_tts\<close>:
  \<open>re.sub(r'\s+', ' ', text).strip()\<close>.
\<close>

function sub_ws :: "pystr \<Rightarrow> pystr" where
  "sub_ws [] = []"
| "sub_ws (c # cs) =
     (if isspace c then 32 # sub_ws (dropWhile isspace cs) else c # sub_ws cs)"
  by pat_completeness auto
termination
  by (relation "measure length") (auto simp: le_imp_less_Suc length_dropWhile_le)

definition collapse_ws :: "pystr \<Rightarrow> pystr" where
  "collapse_ws s = strip (sub_ws s)"

text \<open>The words of a string (maximal runs without whitespace), for the proofs.\<close>

fun words :: "pystr \<Rightarrow> pystr list" where
  "words [] = []"
| "words (c # cs) =
     (if isspace c then words cs
      else if cs = [] \<or> isspace (hd cs) then [c] # words cs
      else cons_first c (words cs))"

text \<open>
  For the proofs: a group of sentences as the loop holds it in \<open>current_chunk\<close> (every
  sentence followed by a space), the chunk it becomes, and the bound the loop keeps.
\<close>

definition with_spaces :: "pystr list \<Rightarrow> pystr" where
  "with_spaces g = concat (map (\<lambda>s. s @ [32]) g)"

definition render :: "pystr list \<Rightarrow> pystr" where
  "render g = strip (with_spaces g)"

definition fits :: "int \<Rightarrow> pystr list \<Rightarrow> bool" where
  "fits max_length g = (int (length (with_spaces g)) \<le> max_length \<or> (\<exists>s. g = [s]))"

text \<open>
  The pieces of a split, put back together with the separators between them, and what makes
  the separators sentence boundaries: one separator between two pieces, every separator a
  non-empty run of whitespace, every piece before a separator ending in \<open>.\<close>, \<open>!\<close> or \<open>?\<close>.
\<close>

fun weave :: "pystr list \<Rightarrow> pystr list \<Rightarrow> pystr" where
  "weave [] seps = []"
| "weave [p] seps = p"
| "weave (p # q # ps) [] = p @ weave (q # ps) []"
| "weave (p # q # ps) (sep # seps) = p @ sep @ weave (q # ps) seps"

definition boundaries :: "pystr list \<Rightarrow> pystr list \<Rightarrow> bool" where
  "boundaries pieces seps =
     (length seps + 1 = length pieces \<and>
      (\<forall>sep\<in>set seps. sep \<noteq> [] \<and> (\<forall>c\<in>set sep. isspace c)) \<and>
      (\<forall>p\<in>set (butlast pieces). p \<noteq> [] \<and> sentence_end (last p)))"

text \<open>
  A sentence boundary inside a string: one of \<open>.\<close>, \<open>!\<close>, \<open>?\<close> directly followed by
  whitespace.
\<close>

fun has_boundary :: "pystr \<Rightarrow> bool" where
  "has_boundary [] = False"
| "has_boundary [c] = False"
| "has_boundary (c # d # cs) = ((sentence_end c \<and> isspace d) \<or> has_boundary (d # cs))"

text \<open>
  The test of the loop that closes a group: the group as \<open>current_chunk\<close> holds it, the
  next sentence and one more character exceed the maximum. A list of groups is greedy when
  this holds between every group and the first sentence of the next.
\<close>

definition overflow :: "int \<Rightarrow> pystr list \<Rightarrow> pystr list \<Rightarrow> bool" where
  "overflow max_length g h =
     (max_length < int (length (with_spaces g)) + int (length (hd h)) + 1)"

fun greedy :: "int \<Rightarrow> pystr list list \<Rightarrow> bool" where
  "greedy max_length (g # h # gs) = (overflow max_length g h \<and> greedy max_length (h # gs))"
| "greedy max_length gs = True"

text \<open>A text for running the chunker, with a double space, a newline and a trailing space.\<close>

definition demo_text :: pystr where
  "demo_text = ascii ''Hi.'' @ [32, 32] @ ascii ''Yo! Abcdefghij.'' @ [10] @ ascii ''Z ''"

text \<open>A second text, with all three sentence ends.\<close>

definition demo_question :: pystr where
  "demo_question = ascii ''Hi?'' @ [32, 32] @ ascii ''Yo. Abcdefghij!'' @ [10] @ ascii ''Z ''"

subsection \<open>Voice configuration\<close>

record TTSConfig =
  voice :: pystr
  prompt :: pystr
  speed :: real

definition DEFAULT :: pystr where "DEFAULT = ascii ''DEFAULT''"

definition fallback_config :: TTSConfig where
  "fallback_config = \<lparr>voice = ascii ''alloy'', prompt = [], speed = 1.0\<rparr>"

definition get_character_config ::
  "(nat \<Rightarrow> pystr) \<Rightarrow> (pystr \<rightharpoonup> TTSConfig) \<Rightarrow> pystr \<Rightarrow> TTSConfig" where
  "get_character_config tbl config speaker0 =
     (let speaker = upper tbl speaker0 in
      case config speaker of
        Some c \<Rightarrow> c
      | None \<Rightarrow> (case config DEFAULT of Some d \<Rightarrow> d | None \<Rightarrow> fallback_config))"

text \<open>
  \<open>load_config\<close>. The parsed JSON: an entry of \<open>character_voices\<close> or the \<open>default\<close>
  object, each field \<open>None\<close> when the key is absent. Indexing an absent \<open>character\<close> or
  \<open>voice\<close> raises, and every exception (also an unreadable or malformed file: \<open>None\<close>)
  ends in the empty table.
\<close>

record json_voice =
  j_character :: "pystr option"
  j_voice :: "pystr option"
  j_prompt :: "pystr option"
  j_speed :: "real option"

record json_config =
  character_voices :: "json_voice list"
  default_voice :: "json_voice option"

definition make_config :: "pystr \<Rightarrow> json_voice \<Rightarrow> TTSConfig" where
  "make_config v e =
     \<lparr>voice = v,
      prompt = (case j_prompt e of None \<Rightarrow> [] | Some q \<Rightarrow> q),
      speed = (case j_speed e of None \<Rightarrow> 1.0 | Some x \<Rightarrow> x)\<rparr>"

fun load_characters ::
  "(nat \<Rightarrow> pystr) \<Rightarrow> json_voice list \<Rightarrow> (pystr \<rightharpoonup> TTSConfig) \<Rightarrow> (pystr \<rightharpoonup> TTSConfig) option" where
  "load_characters tbl [] cfg = Some cfg"
| "load_characters tbl (e # es) cfg =
     (case j_character e of
        None \<Rightarrow> None
      | Some ch \<Rightarrow>
          (case j_voice e of
             None \<Rightarrow> None
           | Some v \<Rightarrow> load_characters tbl es (cfg(upper tbl ch \<mapsto> make_config v e))))"

definition load_config :: "(nat \<Rightarrow> pystr) \<Rightarrow> json_config option \<Rightarrow> (pystr \<rightharpoonup> TTSConfig)" where
  "load_config tbl file =
     (case file of
        None \<Rightarrow> Map.empty
      | Some config_data \<Rightarrow>
          (case load_characters tbl (character_voices config_data) Map.empty of
             None \<Rightarrow> Map.empty
           | Some cfg \<Rightarrow>
               (case default_voice config_data of
                  None \<Rightarrow> cfg
                | Some d \<Rightarrow>
                    (case j_voice d of
                       None \<Rightarrow> Map.empty
                     | Some v \<Rightarrow> cfg(DEFAULT \<mapsto> make_config v d)))))"

text \<open>A configuration file for running the model: one character and a default.\<close>

definition demo_alice :: json_voice where
  "demo_alice = \<lparr>j_character = Some (ascii ''Alice''), j_voice = Some (ascii ''nova''),
                  j_prompt = None, j_speed = Some 1.1\<rparr>"

definition demo_default :: json_voice where
  "demo_default = \<lparr>j_character = None, j_voice = Some (ascii ''echo''),
                    j_prompt = None, j_speed = None\<rparr>"

definition demo_config :: json_config where
  "demo_config = \<lparr>character_voices = [demo_alice], default_voice = Some demo_default\<rparr>"

subsection \<open>File names\<close>

text \<open>
  The format specs \<open>04d\<close> and \<open>02d\<close>: the decimal digits of the absolute value, a minus
  sign for a negative number, and zeros between sign and digits up to the width.
\<close>

fun digits :: "nat \<Rightarrow> pystr" where
  "digits n = (if n < 10 then [48 + n] else digits (n div 10) @ [48 + n mod 10])"

declare digits.simps [simp del]

definition zfill :: "nat \<Rightarrow> pystr \<Rightarrow> pystr" where
  "zfill w s = replicate (w - length s) 48 @ s"

definition fmt_d :: "nat \<Rightarrow> int \<Rightarrow> pystr" where
  "fmt_d w n = (if n < 0 then 45 # zfill (w - 1) (digits (nat (- n))) else zfill w (digits (nat n)))"

text \<open>
  \<open>re.sub(r'[^\w\-_]', '_', speaker)\<close>: every code point that is no word character, no
  \<open>-\<close> and no \<open>_\<close> becomes \<open>_\<close>.
\<close>

definition safe_char :: "(nat \<Rightarrow> bool) \<Rightarrow> nat \<Rightarrow> nat" where
  "safe_char alnum c = (if word_char alnum c \<or> c = 45 \<or> c = 95 then c else 95)"

definition generate_filename :: "(nat \<Rightarrow> bool) \<Rightarrow> pystr \<Rightarrow> int \<Rightarrow> int \<Rightarrow> pystr" where
  "generate_filename alnum speaker0 n chunk_index =
     (let safe_speaker = map (safe_char alnum) speaker0 in
      if chunk_index > 0
      then fmt_d 4 n @ [95] @ safe_speaker @ ascii ''_chunk_'' @ fmt_d 2 chunk_index @ ascii ''.mp3''
      else fmt_d 4 n @ [95] @ safe_speaker @ ascii ''.mp3'')"

text \<open>
  For the proofs: the number a string of decimal digits stands for, and the part of a
  file name after the sanitized speaker.
\<close>

definition digits_val :: "pystr \<Rightarrow> nat" where
  "digits_val s = foldl (\<lambda>a c. 10 * a + (c - 48)) 0 s"

definition chunk_suffix :: "int \<Rightarrow> pystr" where
  "chunk_suffix c = (if c > 0 then ascii ''_chunk_'' @ fmt_d 2 c @ ascii ''.mp3'' else ascii ''.mp3'')"

section \<open>Facts about strings\<close>

lemma contains_single: "contains [c] s = (c \<in> set s)"
  by (induction s) (auto simp: startswith_def)

lemma startswith_single: "startswith s [c] \<Longrightarrow> c \<in> set s"
  by (cases s) (auto simp: startswith_def)

lemma is_candidate_markers:
  "is_candidate line =
     (DQUOTE \<in> set line \<or> SQUOTE \<in> set line \<or> EM_DASH \<in> set line \<or> EN_DASH \<in> set line)"
  by (auto simp: is_candidate_def contains_single dest: startswith_single)

section \<open>The candidate scanner\<close>

lemma scan_lines_enumerate:
  "scan_lines i ls =
     map (\<lambda>(k, l). (strip l, int k + 1))
       (filter (\<lambda>(k, l). strip l \<noteq> [] \<and> is_candidate (strip l)) (enumerate i ls))"
  by (induction ls arbitrary: i) (auto simp: Let_def)

lemma scan_lines_complete:
  assumes "k < length ls" "strip (ls ! k) \<noteq> []" "is_candidate (strip (ls ! k))"
  shows "(strip (ls ! k), int (i + k) + 1) \<in> set (scan_lines i ls)"
proof -
  have "(i + k, ls ! k) \<in> set (enumerate i ls)"
    using assms(1) by (simp add: in_set_enumerate_eq)
  with assms(2,3) show ?thesis
    unfolding scan_lines_enumerate by force
qed

lemma scan_lines_sound:
  assumes "(l, n) \<in> set (scan_lines i ls)"
  shows "\<exists>k<length ls. n = int (i + k) + 1 \<and> l = strip (ls ! k) \<and> l \<noteq> [] \<and> is_candidate l"
proof -
  from assms obtain j x where jx: "(j, x) \<in> set (enumerate i ls)" "l = strip x" "n = int j + 1"
    "strip x \<noteq> []" "is_candidate (strip x)"
    unfolding scan_lines_enumerate by auto
  from jx(1) have "i \<le> j" "j < i + length ls" "x = ls ! (j - i)"
    by (auto simp: in_set_enumerate_eq)
  with jx show ?thesis
    by (intro exI[of _ "j - i"]) auto
qed

lemma scan_lines_lower: "(l, n) \<in> set (scan_lines i ls) \<Longrightarrow> int i < n"
  by (drule scan_lines_sound) auto

lemma scan_lines_sorted: "sorted_wrt (<) (map snd (scan_lines i ls))"
proof (induction ls arbitrary: i)
  case Nil
  show ?case by simp
next
  case (Cons l ls)
  have "\<forall>p\<in>set (scan_lines (Suc i) ls). int i + 1 < snd p"
    using scan_lines_lower[of _ _ "Suc i" ls] by force
  with Cons[of "Suc i"] show ?case by (auto simp: Let_def)
qed

text \<open>
  C10. The condition tested by \<open>extract_potential_dialogue\<close> (six clauses, two of them
  \<open>startswith\<close> tests) holds of a line exactly when the line contains one of the four
  characters \<open>"\<close>, \<open>'\<close>, U+2014, U+2013: the \<open>startswith\<close> clauses add nothing.
\<close>

theorem candidate_predicate_redundant: "is_candidate line = has_marker line"
  using is_candidate_markers[of line] by (simp add: has_marker_def)

theorem candidate_predicate_redundant_witness:
  "is_candidate [DQUOTE, 72, 105, DQUOTE] \<and> has_marker [DQUOTE, 72, 105, DQUOTE] \<and>
   \<not> is_candidate [72, 105] \<and> \<not> has_marker [72, 105]"
  using candidate_predicate_redundant[of "[DQUOTE, 72, 105, DQUOTE]"]
    candidate_predicate_redundant[of "[72, 105]"]
  by (simp add: has_marker_def DQUOTE_def SQUOTE_def EM_DASH_def EN_DASH_def)

text \<open>
  C3, as the code has it. The scanner tests the straight quotes U+0022 and U+0027 and the
  dashes U+2014 and U+2013, nothing else. Every line whose trimmed text is non-empty and
  holds one of these four characters is returned, trimmed, with its 1-based line number;
  the line numbers of the result increase strictly (original order); every returned pair
  is a non-empty trimmed line of the text at that line number, so a blank line is never
  returned.
\<close>

theorem extract_potential_dialogue_candidates:
  "(\<forall>k<length (split_on NL text).
      strip (split_on NL text ! k) \<noteq> [] \<and> has_marker (strip (split_on NL text ! k)) \<longrightarrow>
      (strip (split_on NL text ! k), int k + 1) \<in> set (extract_potential_dialogue text)) \<and>
   sorted_wrt (<) (map snd (extract_potential_dialogue text)) \<and>
   (\<forall>(l, n)\<in>set (extract_potential_dialogue text).
      l \<noteq> [] \<and> 1 \<le> n \<and> n \<le> int (length (split_on NL text)) \<and>
      l = strip (split_on NL text ! nat (n - 1)))"
proof (intro conjI allI impI)
  fix k
  assume "k < length (split_on NL text)"
    and "strip (split_on NL text ! k) \<noteq> [] \<and> has_marker (strip (split_on NL text ! k))"
  then show "(strip (split_on NL text ! k), int k + 1) \<in> set (extract_potential_dialogue text)"
    using scan_lines_complete[of k "split_on NL text" 0]
    by (simp add: extract_potential_dialogue_def is_candidate_markers has_marker_def)
next
  show "sorted_wrt (<) (map snd (extract_potential_dialogue text))"
    by (simp add: extract_potential_dialogue_def scan_lines_sorted)
next
  show "\<forall>(l, n)\<in>set (extract_potential_dialogue text).
      l \<noteq> [] \<and> 1 \<le> n \<and> n \<le> int (length (split_on NL text)) \<and>
      l = strip (split_on NL text ! nat (n - 1))"
  proof (clarify)
    fix l n
    assume "(l, n) \<in> set (extract_potential_dialogue text)"
    then obtain k where "k < length (split_on NL text)" "n = int k + 1"
      "l = strip (split_on NL text ! k)" "l \<noteq> []"
      using scan_lines_sound[of l n 0 "split_on NL text"]
      by (auto simp: extract_potential_dialogue_def)
    then show "l \<noteq> [] \<and> 1 \<le> n \<and> n \<le> int (length (split_on NL text)) \<and>
      l = strip (split_on NL text ! nat (n - 1))"
      by auto
  qed
qed

theorem extract_potential_dialogue_candidates_witness:
  "([34, 72, 105, 34], 3) \<in> set (extract_potential_dialogue
      [120, 10, 32, 10, 34, 72, 105, 34, 32, 10, 8212, 72])"
proof -
  let ?t = "[120, 10, 32, 10, 34, 72, 105, 34, 32, 10, 8212, 72] :: pystr"
  have a: "split_on NL ?t = [[120], [32], [34, 72, 105, 34, 32], [8212, 72]]"
    by (simp add: NL_def)
  have b: "strip [34, 72, 105, 34, 32] = [34, 72, 105, 34]"
    by (simp add: strip_def lstrip_def rstrip_def isspace_def)
  have c: "has_marker [34, 72, 105, 34]"
    by (simp add: has_marker_def DQUOTE_def)
  from extract_potential_dialogue_candidates[of ?t, THEN conjunct1, rule_format, of 2]
  show ?thesis unfolding a using b c by simp
qed

text \<open>
  C3 as stated fails on curly quotes: a line that holds U+201C and U+201D and none of the
  four tested characters is not returned.
\<close>

theorem extract_potential_dialogue_curly_counterexample:
  "strip [8220, 72, 105, 8221] = [8220, 72, 105, 8221] \<and>
   extract_potential_dialogue [8220, 72, 105, 8221] = []"
proof -
  have s: "strip [8220, 72, 105, 8221] = [8220, 72, 105, 8221]"
    by (simp add: strip_def lstrip_def rstrip_def isspace_def)
  have "extract_potential_dialogue [8220, 72, 105, 8221] = []"
    by (simp add: extract_potential_dialogue_def NL_def s is_candidate_markers
        DQUOTE_def SQUOTE_def EM_DASH_def EN_DASH_def)
  with s show ?thesis by simp
qed

section \<open>The context window\<close>

lemma py_slice_upto:
  assumes "0 \<le> a" "0 \<le> b" "b \<le> int (length xs)"
  shows "py_slice xs (Some a) (Some b) = map (\<lambda>k. xs ! nat (k - 1)) [a + 1 .. b]"
proof (cases "a \<le> b")
  case False
  with assms show ?thesis by (simp add: py_slice_def clamp_index_def Let_def)
next
  case True
  with assms have lo: "clamp_index (int (length xs)) a = a"
    and hi: "clamp_index (int (length xs)) b = b"
    by (simp_all add: clamp_index_def)
  show ?thesis
  proof (rule nth_equalityI)
    show "length (py_slice xs (Some a) (Some b)) =
          length (map (\<lambda>k. xs ! nat (k - 1)) [a + 1 .. b])"
      using assms True by (simp add: py_slice_def Let_def lo hi)
  next
    fix i assume "i < length (py_slice xs (Some a) (Some b))"
    then have i: "int i < b - a"
      using assms True by (simp add: py_slice_def Let_def lo hi)
    then have "[a + 1 .. b] ! i = a + 1 + int i" by (simp add: nth_upto)
    moreover have "nat (a + 1 + int i - 1) = nat a + i" using assms by simp
    ultimately show "py_slice xs (Some a) (Some b) ! i =
        map (\<lambda>k. xs ! nat (k - 1)) [a + 1 .. b] ! i"
      using assms True i by (simp add: py_slice_def Let_def lo hi)
  qed
qed

text \<open>
  C2, as the code has it. For a line number \<open>n \<ge> 1\<close> the window built in \<open>parse_book\<close> is
  the list of the trimmed, non-empty lines numbered from \<open>max 1 (n - 3)\<close> to
  \<open>min (length ls) (n + 3)\<close>, in document order: three lines before the target through
  three lines after it, the target line included, never a line outside the document and
  never a blank line.
\<close>

theorem context_window_lines:
  assumes "1 \<le> n"
  shows "context_window ls n =
     filter (\<lambda>l. l \<noteq> [])
       (map (\<lambda>k. strip (ls ! nat (k - 1))) [max 1 (n - 3) .. min (int (length ls)) (n + 3)])"
proof -
  have m: "max 1 (n - 3) = max 0 (n - 4) + 1" by simp
  have "py_slice ls (Some (max 0 (n - 4))) (Some (min (int (length ls)) (n + 3))) =
        map (\<lambda>k. ls ! nat (k - 1)) [max 0 (n - 4) + 1 .. min (int (length ls)) (n + 3)]"
    using assms by (intro py_slice_upto) auto
  then show ?thesis
    unfolding context_window_def Let_def m by (simp add: filter_map comp_def)
qed

theorem context_window_lines_witness:
  "context_window [[97], [32], [99]] 1 = [[97], [99]]"
  using context_window_lines[of 1 "[[97], [32], [99]]"]
  by (simp add: upto_rec1 strip_def lstrip_def rstrip_def isspace_def)

text \<open>
  C2 as stated fails: in a document of seven lines the window of line 4 holds line 7, the
  third line after the target, so it is not the list of lines 1 to 6 (three before through
  two after). The context sent to the backend then puts the dialogue line after the last
  three entries of the window and before its first two.
\<close>

theorem context_window_counterexample:
  "context_window [[97], [98], [99], [100], [101], [102], [103]] 4 \<noteq>
     [[97], [98], [99], [100], [101], [102]] \<and>
   build_context [100] (context_window [[97], [98], [99], [100], [101], [102], [103]] 4) =
     [101, 10, 102, 10, 103, 10, 100, 10, 97, 10, 98]"
proof -
  have s: "\<And>c. \<not> isspace c \<Longrightarrow> strip [c] = [c]"
    by (simp add: strip_def lstrip_def rstrip_def)
  have w: "context_window [[97], [98], [99], [100], [101], [102], [103]] 4 =
      [[97], [98], [99], [100], [101], [102], [103]]"
    by (simp add: context_window_def py_slice_def clamp_index_def s isspace_def)
  show ?thesis
    unfolding w by (simp add: build_context_def py_slice_def clamp_index_def NL_def)
qed

section \<open>The attributor\<close>

lemma upper_Nil: "upper tbl [] = []"
  by (simp add: upper_def)

lemma strip_Nil: "strip [] = []"
  by (simp add: strip_def lstrip_def rstrip_def)

lemma sentinels_nonempty: "UNKNOWN \<noteq> []" "NARRATOR \<noteq> []"
  by (simp_all add: UNKNOWN_def NARRATOR_def ascii_def)

text \<open>What the code computes: the confidence is low for the two sentinels only.\<close>

lemma identify_speaker_confidence:
  "snd (fst (identify_speaker tbl post self d ctx)) =
     (if fst (fst (identify_speaker tbl post self d ctx)) \<in> {UNKNOWN, NARRATOR} then 0.3 else 0.8)"
  by (simp add: identify_speaker_def Let_def)

text \<open>
  C1. The claim gives the empty label the low confidence 0.3. The code does not: when the
  backend call fails, \<open>query_ollama\<close> returns the empty string, the label is empty, and
  \<open>identify_speaker\<close> returns it with confidence 0.8, whatever the dialogue line and its
  context are.
\<close>

theorem identify_speaker_backend_failure:
  "fst (identify_speaker tbl backend_down self d ctx) = ([], 0.8)"
  using sentinels_nonempty
  by (simp add: identify_speaker_def Let_def query_ollama_def backend_down_def upper_Nil strip_Nil)

section \<open>The character set\<close>

lemma identify_speaker_characters:
  "characters (snd (identify_speaker tbl post self d ctx)) =
     characters self \<union>
       ({fst (fst (identify_speaker tbl post self d ctx))} - {UNKNOWN, NARRATOR, []})"
  by (auto simp: identify_speaker_def Let_def)

lemma attribute_all_characters:
  "characters (snd (attribute_all tbl post ls i cands self)) =
     characters self \<union>
       (speaker ` set (fst (attribute_all tbl post ls i cands self)) - {UNKNOWN, NARRATOR, []})"
proof (induction cands arbitrary: i self)
  case Nil
  show ?case by simp
next
  case (Cons c cands)
  obtain d n where c: "c = (d, n)" by (cases c)
  let ?r = "identify_speaker tbl (post i) self d (context_window ls n)"
  obtain sp conf self' where r: "?r = ((sp, conf), self')" by (metis prod.collapse)
  have ch: "characters self' = characters self \<union> ({sp} - {UNKNOWN, NARRATOR, []})"
    using identify_speaker_characters[of tbl "post i" self d "context_window ls n"] r by simp
  obtain rest self'' where a: "attribute_all tbl post ls (Suc i) cands self' = (rest, self'')"
    by (cases "attribute_all tbl post ls (Suc i) cands self'")
  have "characters self'' = characters self' \<union> (speaker ` set rest - {UNKNOWN, NARRATOR, []})"
    using Cons.IH[of "Suc i" self'] a by simp
  with ch show ?case
    by (auto simp: c r a Let_def)
qed

text \<open>
  C8. After \<open>parse_book\<close> on a fresh parser the character set is exactly the set of the
  speaker fields of the returned dialogue lines that are not \<open>UNKNOWN\<close>, not \<open>NARRATOR\<close>
  and not empty. From any parser state the run adds exactly these labels to the set, so
  the set only grows.
\<close>

theorem parse_book_characters:
  "characters (snd (parse_book tbl post file (init_parser model url))) =
     speaker ` set (fst (parse_book tbl post file (init_parser model url))) -
       {UNKNOWN, NARRATOR, []} \<and>
   characters (snd (parse_book tbl post file self)) =
     characters self \<union>
       (speaker ` set (fst (parse_book tbl post file self)) - {UNKNOWN, NARRATOR, []}) \<and>
   characters self \<subseteq> characters (snd (parse_book tbl post file self))"
proof -
  have g: "characters (snd (parse_book tbl post file s)) =
     characters s \<union> (speaker ` set (fst (parse_book tbl post file s)) - {UNKNOWN, NARRATOR, []})"
    for s
    by (cases "file") (simp_all add: parse_book_def attribute_all_characters)
  have "characters (init_parser model url) = {}" by (simp add: init_parser_def)
  with g[of "init_parser model url"] g[of self] show ?thesis by auto
qed

lemma demo_strips:
  "strip [32, 65, 108, 32] = [65, 108]" "strip [65, 108] = [65, 108]"
  "strip [34, 72, 34] = [34, 72, 34]" "strip [102] = [102]" "strip [39, 121, 39] = [39, 121, 39]"
  "strip (ascii ''narrator'') = ascii ''narrator''"
  by (simp_all add: strip_def lstrip_def rstrip_def isspace_def ascii_def)

lemma demo_uppers:
  "upper latin1_upper [65, 108] = [65, 76]" "upper latin1_upper (ascii ''narrator'') = NARRATOR"
  by (simp_all add: upper_def upper_cp_def ascii_def NARRATOR_def)

lemma demo_candidates:
  "extract_potential_dialogue [34, 72, 34, 10, 102, 10, 39, 121, 39] =
     [([34, 72, 34], 1), ([39, 121, 39], 3)]"
  by (simp add: extract_potential_dialogue_def NL_def demo_strips is_candidate_markers
      DQUOTE_def SQUOTE_def EM_DASH_def EN_DASH_def)

lemma demo_run:
  "parse_book latin1_upper demo_backend (Some [34, 72, 34, 10, 102, 10, 39, 121, 39])
     (init_parser [] []) =
   ([\<lparr>dl_text = [34, 72, 34], speaker = [65, 76], line_number = 1, confidence = 0.8\<rparr>,
     \<lparr>dl_text = [39, 121, 39], speaker = NARRATOR, line_number = 3, confidence = 0.3\<rparr>],
    \<lparr>ollama_model = [], ollama_url = [], characters = {[65, 76]}\<rparr>)"
  by (simp add: parse_book_def demo_candidates identify_speaker_def query_ollama_def
      demo_backend_def Let_def demo_strips demo_uppers init_parser_def)
    (simp add: UNKNOWN_def NARRATOR_def ascii_def)

theorem parse_book_characters_witness:
  "characters (snd (parse_book latin1_upper demo_backend
      (Some [34, 72, 34, 10, 102, 10, 39, 121, 39]) (init_parser [] []))) = {[65, 76]} \<and>
   map speaker (fst (parse_book latin1_upper demo_backend
      (Some [34, 72, 34, 10, 102, 10, 39, 121, 39]) (init_parser [] []))) = [[65, 76], NARRATOR]"
  using parse_book_characters[of latin1_upper demo_backend
      "Some [34, 72, 34, 10, 102, 10, 39, 121, 39]" "[]" "[]" "init_parser [] []"]
  unfolding demo_run by (simp add: UNKNOWN_def NARRATOR_def ascii_def)

section \<open>Voice resolution\<close>

lemma load_characters_append:
  "load_characters tbl (es1 @ es2) cfg =
     (case load_characters tbl es1 cfg of None \<Rightarrow> None | Some c \<Rightarrow> load_characters tbl es2 c)"
  by (induction es1 arbitrary: cfg) (auto split: option.splits)

lemma load_characters_other:
  "load_characters tbl es cfg = Some cfg' \<Longrightarrow>
   (\<forall>e\<in>set es. \<forall>ch. j_character e = Some ch \<longrightarrow> upper tbl ch \<noteq> k) \<Longrightarrow> cfg' k = cfg k"
  by (induction es arbitrary: cfg) (auto split: option.splits)

lemma load_characters_total:
  "(\<forall>e\<in>set es. j_character e \<noteq> None \<and> j_voice e \<noteq> None) \<Longrightarrow>
   \<exists>cfg'. load_characters tbl es cfg = Some cfg'"
  by (induction es arbitrary: cfg) (auto split: option.splits)

lemma load_characters_last:
  assumes "load_characters tbl (es1 @ e # es2) cfg = Some cfg'"
    and "j_character e = Some ch" "j_voice e = Some v"
    and "\<forall>e'\<in>set es2. \<forall>ch'. j_character e' = Some ch' \<longrightarrow> upper tbl ch' \<noteq> upper tbl ch"
  shows "cfg' (upper tbl ch) = Some (make_config v e)"
proof -
  from assms(1) obtain c1 where c1: "load_characters tbl es1 cfg = Some c1"
    and r: "load_characters tbl (e # es2) c1 = Some cfg'"
    by (auto simp: load_characters_append split: option.splits)
  from r assms(2,3) have "load_characters tbl es2 (c1(upper tbl ch \<mapsto> make_config v e)) = Some cfg'"
    by simp
  from load_characters_other[OF this assms(4)] show ?thesis by simp
qed

text \<open>
  C9. \<open>get_character_config\<close> returns the table's entry under the uppercased speaker
  label if there is one, otherwise the table's \<open>DEFAULT\<close> entry if there is one, otherwise
  the hardcoded fallback (voice \<open>alloy\<close>, empty prompt, speed 1.0); it has no failing
  branch, and on the empty table every speaker gets the fallback. The match is
  case-insensitive because \<open>load_config\<close> stores every character under its uppercased
  name: in a table loaded from a well-formed file, a speaker that equals a character of
  the file up to case (and is not the word \<open>DEFAULT\<close> while the file has a default
  object) gets the configuration of the last such character.
\<close>

theorem get_character_config_resolution:
  "(config (upper tbl s) = Some c \<longrightarrow> get_character_config tbl config s = c) \<and>
   (config (upper tbl s) = None \<and> config DEFAULT = Some d \<longrightarrow>
      get_character_config tbl config s = d) \<and>
   (config (upper tbl s) = None \<and> config DEFAULT = None \<longrightarrow>
      get_character_config tbl config s = fallback_config) \<and>
   get_character_config tbl Map.empty s = fallback_config \<and>
   fallback_config = \<lparr>voice = ascii ''alloy'', prompt = [], speed = 1\<rparr> \<and>
   ((\<forall>e'\<in>set (character_voices data). j_character e' \<noteq> None \<and> j_voice e' \<noteq> None) \<and>
    (\<forall>dv. default_voice data = Some dv \<longrightarrow> j_voice dv \<noteq> None \<and> upper tbl s \<noteq> DEFAULT) \<and>
    character_voices data = es1 @ e # es2 \<and> j_character e = Some ch \<and> j_voice e = Some v \<and>
    upper tbl ch = upper tbl s \<and>
    (\<forall>e'\<in>set es2. \<forall>ch'. j_character e' = Some ch' \<longrightarrow> upper tbl ch' \<noteq> upper tbl s) \<longrightarrow>
    get_character_config tbl (load_config tbl (Some data)) s = make_config v e)"
proof (intro conjI impI)
  assume a: "(\<forall>e'\<in>set (character_voices data). j_character e' \<noteq> None \<and> j_voice e' \<noteq> None) \<and>
    (\<forall>dv. default_voice data = Some dv \<longrightarrow> j_voice dv \<noteq> None \<and> upper tbl s \<noteq> DEFAULT) \<and>
    character_voices data = es1 @ e # es2 \<and> j_character e = Some ch \<and> j_voice e = Some v \<and>
    upper tbl ch = upper tbl s \<and>
    (\<forall>e'\<in>set es2. \<forall>ch'. j_character e' = Some ch' \<longrightarrow> upper tbl ch' \<noteq> upper tbl s)"
  then obtain cfg where cfg: "load_characters tbl (character_voices data) Map.empty = Some cfg"
    using load_characters_total[of "character_voices data" tbl Map.empty] by blast
  have hit: "cfg (upper tbl s) = Some (make_config v e)"
    using load_characters_last[of tbl es1 e es2 Map.empty cfg ch v] a cfg by simp
  show "get_character_config tbl (load_config tbl (Some data)) s = make_config v e"
  proof (cases "default_voice data")
    case None
    with cfg hit show ?thesis by (simp add: load_config_def get_character_config_def Let_def)
  next
    case (Some dv)
    with a obtain v' where "j_voice dv = Some v'" "upper tbl s \<noteq> DEFAULT" by auto
    with Some cfg hit show ?thesis by (simp add: load_config_def get_character_config_def Let_def)
  qed
qed (simp_all add: get_character_config_def Let_def fallback_config_def)

lemma demo_keys:
  "upper latin1_upper (ascii ''alice'') = ascii ''ALICE''"
  "upper latin1_upper (ascii ''Alice'') = ascii ''ALICE''"
  "upper latin1_upper (ascii ''Bob'') = ascii ''BOB''"
  by (simp_all add: upper_def upper_cp_def ascii_def)

lemma demo_table:
  "load_config latin1_upper (Some demo_config) =
     [ascii ''ALICE'' \<mapsto> make_config (ascii ''nova'') demo_alice,
      DEFAULT \<mapsto> make_config (ascii ''echo'') demo_default]"
  by (simp add: load_config_def demo_config_def demo_alice_def demo_default_def demo_keys)

theorem get_character_config_resolution_witness:
  "get_character_config latin1_upper (load_config latin1_upper (Some demo_config)) (ascii ''alice'') =
     \<lparr>voice = ascii ''nova'', prompt = [], speed = 1.1\<rparr> \<and>
   get_character_config latin1_upper (load_config latin1_upper (Some demo_config)) (ascii ''Bob'') =
     \<lparr>voice = ascii ''echo'', prompt = [], speed = 1\<rparr> \<and>
   get_character_config latin1_upper (load_config latin1_upper None) (ascii ''Bob'') =
     \<lparr>voice = ascii ''alloy'', prompt = [], speed = 1\<rparr>"
proof -
  have ne: "ascii ''ALICE'' \<noteq> DEFAULT" "ascii ''BOB'' \<noteq> DEFAULT" "ascii ''BOB'' \<noteq> ascii ''ALICE''"
    by (simp_all add: DEFAULT_def ascii_def)
  have 1: "get_character_config latin1_upper (load_config latin1_upper (Some demo_config))
      (ascii ''alice'') = make_config (ascii ''nova'') demo_alice"
    using get_character_config_resolution[of _ latin1_upper "ascii ''alice''" _ _ demo_config
        "[]" demo_alice "[]" "ascii ''Alice''" "ascii ''nova''"] ne
    by (simp add: demo_config_def demo_keys) (simp add: demo_alice_def demo_default_def)
  have 2: "get_character_config latin1_upper (load_config latin1_upper (Some demo_config))
      (ascii ''Bob'') = make_config (ascii ''echo'') demo_default"
    using get_character_config_resolution[of "load_config latin1_upper (Some demo_config)"
        latin1_upper "ascii ''Bob''" _ "make_config (ascii ''echo'') demo_default"] ne
    by (simp add: demo_table demo_keys)
  have 3: "get_character_config latin1_upper (load_config latin1_upper None) (ascii ''Bob'') =
      fallback_config"
    using get_character_config_resolution[of Map.empty latin1_upper "ascii ''Bob''"]
    by (simp add: load_config_def)
  show ?thesis
    unfolding 1 2 3 by (simp add: make_config_def demo_alice_def demo_default_def fallback_config_def)
qed

section \<open>File names\<close>

lemma digits_small: "n < 10 \<Longrightarrow> digits n = [48 + n]"
  by (subst digits.simps) simp

lemma digits_large: "10 \<le> n \<Longrightarrow> digits n = digits (n div 10) @ [48 + n mod 10]"
  by (subst digits.simps) simp

lemma digits_set: "set (digits n) \<subseteq> {48..57}"
proof (induction n rule: digits.induct)
  case (1 n)
  show ?case
  proof (cases "n < 10")
    case True
    then show ?thesis by (simp add: digits_small)
  next
    case False
    then have "set (digits (n div 10)) \<subseteq> {48..57}" using 1 by simp
    moreover have "48 + n mod 10 \<in> {48..57}" by simp
    ultimately show ?thesis using False by (simp add: digits_large)
  qed
qed

lemma digits_nonempty: "digits n \<noteq> []"
  by (cases "n < 10") (simp_all add: digits_small digits_large)

lemma digits_val_snoc: "digits_val (s @ [c]) = 10 * digits_val s + (c - 48)"
  by (simp add: digits_val_def)

lemma digits_val_digits: "digits_val (digits n) = n"
proof (induction n rule: digits.induct)
  case (1 n)
  show ?case
  proof (cases "n < 10")
    case True
    then show ?thesis by (simp add: digits_small digits_val_def)
  next
    case False
    then have "digits_val (digits (n div 10)) = n div 10" using 1 by simp
    with False show ?thesis by (simp add: digits_large digits_val_snoc)
  qed
qed

lemma digits_val_zeros: "digits_val (replicate k 48 @ s) = digits_val s"
proof -
  have "foldl (\<lambda>a c. 10 * a + (c - 48)) 0 (replicate k 48) = (0::nat)"
    by (induction k) simp_all
  then show ?thesis by (simp add: digits_val_def)
qed

lemma digits_val_zfill: "digits_val (zfill w (digits n)) = n"
  by (simp add: zfill_def digits_val_zeros digits_val_digits)

lemma zfill_set: "set (zfill w (digits n)) \<subseteq> {48..57}"
  using digits_set[of n] by (auto simp: zfill_def)

lemma zfill_nonempty: "zfill w (digits n) \<noteq> []"
  by (simp add: zfill_def digits_nonempty)

lemma fmt_d_set: "set (fmt_d w n) \<subseteq> insert 45 {48..57}"
  using zfill_set[of w "nat n"] zfill_set[of "w - 1" "nat (- n)"] by (auto simp: fmt_d_def)

lemma fmt_d_no_underscore: "95 \<notin> set (fmt_d w n)"
  using fmt_d_set[of w n] by auto

lemma zfill_hd: "hd (zfill w (digits n)) \<noteq> 45"
proof -
  have "hd (zfill w (digits n)) \<in> set (zfill w (digits n))"
    using zfill_nonempty by simp
  with zfill_set[of w n] show ?thesis by auto
qed

lemma fmt_d_inj: "fmt_d w a = fmt_d w b \<Longrightarrow> a = b"
proof -
  assume e: "fmt_d w a = fmt_d w b"
  consider "a < 0" "b < 0" | "a < 0" "0 \<le> b" | "0 \<le> a" "b < 0" | "0 \<le> a" "0 \<le> b"
    by linarith
  then show ?thesis
  proof cases
    case 1
    with e have "zfill (w - 1) (digits (nat (- a))) = zfill (w - 1) (digits (nat (- b)))"
      by (simp add: fmt_d_def)
    then have "digits_val (zfill (w - 1) (digits (nat (- a)))) =
        digits_val (zfill (w - 1) (digits (nat (- b))))" by simp
    then have "nat (- a) = nat (- b)" by (simp only: digits_val_zfill)
    with 1 show ?thesis by simp
  next
    case 2
    with e have "45 # zfill (w - 1) (digits (nat (- a))) = zfill w (digits (nat b))"
      by (simp add: fmt_d_def)
    then have "hd (zfill w (digits (nat b))) = hd (45 # zfill (w - 1) (digits (nat (- a))))"
      by simp
    then have "hd (zfill w (digits (nat b))) = 45" by simp
    with zfill_hd show ?thesis by blast
  next
    case 3
    with e have "zfill w (digits (nat a)) = 45 # zfill (w - 1) (digits (nat (- b)))"
      by (simp add: fmt_d_def)
    then have "hd (zfill w (digits (nat a))) = 45" by simp
    with zfill_hd show ?thesis by blast
  next
    case 4
    with e have "zfill w (digits (nat a)) = zfill w (digits (nat b))"
      by (simp add: fmt_d_def)
    then have "digits_val (zfill w (digits (nat a))) = digits_val (zfill w (digits (nat b)))"
      by simp
    then have "nat a = nat b" by (simp only: digits_val_zfill)
    with 4 show ?thesis by simp
  qed
qed

lemma split_at_first:
  "x \<notin> set a \<Longrightarrow> x \<notin> set b \<Longrightarrow> a @ x # r = b @ x # t \<Longrightarrow> a = b \<and> r = t"
proof (induction a arbitrary: b)
  case Nil
  then show ?case by (cases b) auto
next
  case (Cons y a)
  then show ?case by (cases b) auto
qed

lemma generate_filename_parts:
  "generate_filename alnum s n c = fmt_d 4 n @ 95 # (map (safe_char alnum) s @ chunk_suffix c)"
  by (simp add: generate_filename_def chunk_suffix_def Let_def)

lemma chunk_suffix_inj:
  assumes "chunk_suffix c1 = chunk_suffix c2" "0 \<le> c1" "0 \<le> c2"
  shows "c1 = c2"
proof -
  consider "c1 > 0" "c2 > 0" | "c1 > 0" "c2 = 0" | "c1 = 0" "c2 > 0" | "c1 = 0" "c2 = 0"
    using assms(2,3) by linarith
  then show ?thesis
  proof cases
    case 1
    with assms(1) have "fmt_d 2 c1 = fmt_d 2 c2" by (simp add: chunk_suffix_def)
    then show ?thesis by (rule fmt_d_inj)
  next
    case 2
    with assms(1) show ?thesis by (simp add: chunk_suffix_def ascii_def)
  next
    case 3
    with assms(1) show ?thesis by (simp add: chunk_suffix_def ascii_def)
  next
    case 4
    then show ?thesis by simp
  qed
qed

text \<open>
  C5, as the code has it. Two equal file names have equal line numbers. For speakers with
  the same sanitized form (in particular for one speaker), equal file names with
  non-negative chunk indices have equal chunk indices, so the chunks of one dialogue line
  never share a file. Equal file names with equal chunk indices have the same sanitized
  speaker; the speakers themselves may differ.
\<close>

theorem generate_filename_injective:
  assumes "generate_filename alnum s1 n1 c1 = generate_filename alnum s2 n2 c2"
  shows "n1 = n2 \<and>
    (0 \<le> c1 \<and> 0 \<le> c2 \<and> map (safe_char alnum) s1 = map (safe_char alnum) s2 \<longrightarrow> c1 = c2) \<and>
    (c1 = c2 \<longrightarrow> map (safe_char alnum) s1 = map (safe_char alnum) s2)"
proof -
  have "fmt_d 4 n1 @ 95 # (map (safe_char alnum) s1 @ chunk_suffix c1) =
        fmt_d 4 n2 @ 95 # (map (safe_char alnum) s2 @ chunk_suffix c2)"
    using assms unfolding generate_filename_parts .
  then have "fmt_d 4 n1 = fmt_d 4 n2 \<and>
      map (safe_char alnum) s1 @ chunk_suffix c1 = map (safe_char alnum) s2 @ chunk_suffix c2"
    by (rule split_at_first[OF fmt_d_no_underscore fmt_d_no_underscore])
  then have n: "n1 = n2"
    and r: "map (safe_char alnum) s1 @ chunk_suffix c1 = map (safe_char alnum) s2 @ chunk_suffix c2"
    using fmt_d_inj by blast+
  from r have a: "0 \<le> c1 \<and> 0 \<le> c2 \<and> map (safe_char alnum) s1 = map (safe_char alnum) s2 \<longrightarrow> c1 = c2"
    using chunk_suffix_inj by auto
  from r have b: "c1 = c2 \<longrightarrow> map (safe_char alnum) s1 = map (safe_char alnum) s2"
    by auto
  from n a b show ?thesis by blast
qed

lemma digits2: "10 \<le> k \<Longrightarrow> k < 100 \<Longrightarrow> digits k = [48 + k div 10, 48 + k mod 10]"
  by (simp add: digits_large digits_small)

lemma digits3:
  assumes "100 \<le> k" "k < 1000"
  shows "digits k = [48 + k div 100, 48 + k div 10 mod 10, 48 + k mod 10]"
proof -
  have "10 \<le> k div 10" "k div 10 < 100" using assms by presburger+
  moreover have "k div 10 div 10 = k div 100" by (simp add: div_mult2_eq[symmetric])
  ultimately show ?thesis using assms by (simp add: digits_large[of k] digits2)
qed

lemma digits4:
  assumes "1000 \<le> k" "k < 10000"
  shows "digits k = [48 + k div 1000, 48 + k div 100 mod 10, 48 + k div 10 mod 10, 48 + k mod 10]"
proof -
  have "100 \<le> k div 10" "k div 10 < 1000" using assms by presburger+
  moreover have "k div 10 div 100 = k div 1000" "k div 10 div 10 = k div 100"
    by (simp_all add: div_mult2_eq[symmetric])
  ultimately show ?thesis using assms by (simp add: digits_large[of k] digits3)
qed

lemma replicate_small:
  "replicate 1 x = [x]" "replicate 2 x = [x, x]" "replicate 3 x = [x, x, x]"
  by (simp_all add: numeral_2_eq_2 numeral_3_eq_3)

lemma fmt_d_4:
  assumes "0 \<le> n" "n < 10000"
  shows "fmt_d 4 n = [48 + nat n div 1000, 48 + nat n div 100 mod 10,
                      48 + nat n div 10 mod 10, 48 + nat n mod 10]"
proof -
  define k where "k = nat n"
  have k: "k < 10000" using assms by (simp add: k_def)
  have f: "fmt_d 4 n = zfill 4 (digits k)" using assms by (simp add: fmt_d_def k_def)
  consider "k < 10" | "10 \<le> k" "k < 100" | "100 \<le> k" "k < 1000" | "1000 \<le> k"
    by linarith
  then have "zfill 4 (digits k) =
      [48 + k div 1000, 48 + k div 100 mod 10, 48 + k div 10 mod 10, 48 + k mod 10]"
  proof cases
    case 1
    then show ?thesis by (simp add: digits_small zfill_def replicate_small)
  next
    case 2
    then have "k div 100 = 0" "k div 1000 = 0" "k div 10 mod 10 = k div 10" by simp_all
    with 2 show ?thesis by (simp add: digits2 zfill_def replicate_small)
  next
    case 3
    then have "k div 1000 = 0" "k div 100 mod 10 = k div 100" by simp_all
    with 3 show ?thesis by (simp add: digits3 zfill_def replicate_small)
  next
    case 4
    with k have "k div 1000 mod 10 = k div 1000" by simp
    with 4 k show ?thesis by (simp add: digits4 zfill_def)
  qed
  with f show ?thesis by (simp add: k_def)
qed

lemma fmt_d_2:
  assumes "0 \<le> m" "m < 100"
  shows "fmt_d 2 m = [48 + nat m div 10, 48 + nat m mod 10]"
proof -
  define k where "k = nat m"
  have f: "fmt_d 2 m = zfill 2 (digits k)" using assms by (simp add: fmt_d_def k_def)
  have "zfill 2 (digits k) = [48 + k div 10, 48 + k mod 10]"
  proof (cases "k < 10")
    case True
    then show ?thesis by (simp add: digits_small zfill_def replicate_small)
  next
    case False
    moreover have "k < 100" using assms by (simp add: k_def)
    ultimately show ?thesis by (simp add: digits2 zfill_def)
  qed
  with f show ?thesis by (simp add: k_def)
qed

lemma fmt_d_length: "w \<le> length (fmt_d w n)"
  by (auto simp: fmt_d_def zfill_def)

lemma safe_char_ascii:
  "c < 128 \<Longrightarrow> safe_char alnum c =
     (if (48 \<le> c \<and> c \<le> 57) \<or> (65 \<le> c \<and> c \<le> 90) \<or> (97 \<le> c \<and> c \<le> 122) \<or> c = 95 \<or> c = 45
      then c else 95)"
  by (simp add: safe_char_def word_char_def isalnum_def)

lemma safe_char_beyond: "128 \<le> c \<Longrightarrow> safe_char alnum c = (if alnum c then c else 95)"
  by (simp add: safe_char_def word_char_def isalnum_def)

theorem generate_filename_injective_witness:
  "generate_filename latin1_alnum (ascii ''A!'') 1 0 =
     generate_filename latin1_alnum (ascii ''A?'') 1 0 \<and>
   map (safe_char latin1_alnum) (ascii ''A!'') = map (safe_char latin1_alnum) (ascii ''A?'') \<and>
   generate_filename latin1_alnum (ascii ''Al'') 3 0 \<noteq>
     generate_filename latin1_alnum (ascii ''Al'') 3 1"
proof -
  have e: "generate_filename latin1_alnum (ascii ''A!'') 1 0 =
      generate_filename latin1_alnum (ascii ''A?'') 1 0"
    by (simp add: generate_filename_def ascii_def safe_char_ascii)
  have s: "map (safe_char latin1_alnum) (ascii ''A!'') = map (safe_char latin1_alnum) (ascii ''A?'')"
    using generate_filename_injective[OF e] by simp
  have d: "generate_filename latin1_alnum (ascii ''Al'') 3 0 \<noteq>
      generate_filename latin1_alnum (ascii ''Al'') 3 1"
  proof
    assume "generate_filename latin1_alnum (ascii ''Al'') 3 0 =
      generate_filename latin1_alnum (ascii ''Al'') 3 1"
    from generate_filename_injective[OF this] show False by simp
  qed
  from e s d show ?thesis by simp
qed

text \<open>
  C5 as stated fails: the speakers \<open>A!\<close> and \<open>A?\<close> get the same file name for the same
  line and chunk, and so do chunk 1 of speaker \<open>A\<close> and chunk 0 of speaker
  \<open>A_chunk_01\<close>.
\<close>

theorem generate_filename_collision_counterexample:
  "ascii ''A!'' \<noteq> ascii ''A?'' \<and>
   generate_filename latin1_alnum (ascii ''A!'') 1 0 =
     generate_filename latin1_alnum (ascii ''A?'') 1 0 \<and>
   generate_filename latin1_alnum (ascii ''A'') 1 1 =
     generate_filename latin1_alnum (ascii ''A_chunk_01'') 1 0"
proof -
  have "fmt_d 2 1 = [48, 49]" by (simp add: fmt_d_2)
  then show ?thesis by (simp add: generate_filename_def ascii_def safe_char_ascii)
qed

text \<open>
  C4, as the code has it. The name is the line number in format \<open>04d\<close>, an underscore, the
  sanitized speaker and \<open>.mp3\<close>, with \<open>_chunk_\<close> and the chunk index in format \<open>02d\<close>
  before \<open>.mp3\<close> exactly when the chunk index is positive. Sanitizing keeps an ASCII
  character exactly when it is in \<open>[A-Za-z0-9_-]\<close> and a character beyond ASCII exactly when
  it is alphanumeric; every other character becomes an underscore. The formats pad with
  zeros to at least 4 and 2 characters: a line number from 0 to 9999 gives its four
  digits, a chunk index from 0 to 99 its two digits. The name for speaker \<open>Alice\<close>, line 7,
  chunk 0 is \<open>0007_Alice.mp3\<close>.
\<close>

theorem generate_filename_format:
  "(chunk_index \<le> 0 \<longrightarrow>
      generate_filename alnum sp n chunk_index =
        fmt_d 4 n @ [95] @ map (safe_char alnum) sp @ ascii ''.mp3'') \<and>
   (0 < chunk_index \<longrightarrow>
      generate_filename alnum sp n chunk_index =
        fmt_d 4 n @ [95] @ map (safe_char alnum) sp @ ascii ''_chunk_'' @
        fmt_d 2 chunk_index @ ascii ''.mp3'') \<and>
   (c < 128 \<longrightarrow>
      safe_char alnum c =
        (if (48 \<le> c \<and> c \<le> 57) \<or> (65 \<le> c \<and> c \<le> 90) \<or> (97 \<le> c \<and> c \<le> 122) \<or>
            c = 95 \<or> c = 45
         then c else 95)) \<and>
   (128 \<le> c \<longrightarrow> safe_char alnum c = (if alnum c then c else 95)) \<and>
   (0 \<le> n \<and> n < 10000 \<longrightarrow>
      fmt_d 4 n = [48 + nat n div 1000, 48 + nat n div 100 mod 10,
                   48 + nat n div 10 mod 10, 48 + nat n mod 10]) \<and>
   (0 \<le> chunk_index \<and> chunk_index < 100 \<longrightarrow>
      fmt_d 2 chunk_index = [48 + nat chunk_index div 10, 48 + nat chunk_index mod 10]) \<and>
   4 \<le> length (fmt_d 4 n) \<and> 2 \<le> length (fmt_d 2 chunk_index) \<and>
   generate_filename alnum (ascii ''Alice'') 7 0 = ascii ''0007_Alice.mp3''"
proof -
  have "generate_filename alnum (ascii ''Alice'') 7 0 = ascii ''0007_Alice.mp3''"
    by (simp add: generate_filename_def fmt_d_4 ascii_def safe_char_ascii)
  then show ?thesis
    using fmt_d_4[of n] fmt_d_2[of chunk_index] fmt_d_length[of 4 n] fmt_d_length[of 2 chunk_index]
      safe_char_ascii[of c alnum] safe_char_beyond[of c alnum]
    by (simp add: generate_filename_def Let_def)
qed

theorem generate_filename_format_witness:
  "generate_filename latin1_alnum (ascii ''Bob!'') 12 1 = ascii ''0012_Bob__chunk_01.mp3'' \<and>
   generate_filename latin1_alnum (ascii ''Alice'') 7 0 = ascii ''0007_Alice.mp3''"
  using generate_filename_format[where chunk_index = 1 and alnum = latin1_alnum
      and sp = "ascii ''Bob!''" and n = 12 and c = 66]
    generate_filename_format[where alnum = latin1_alnum and c = 111]
    generate_filename_format[where alnum = latin1_alnum and c = 98]
    generate_filename_format[where alnum = latin1_alnum and c = 33]
  by (simp add: ascii_def)

text \<open>
  C4 as stated fails twice: the letter U+00C9 is outside \<open>[A-Za-z0-9_-]\<close> and is kept, and
  the chunk index 100 is written with three digits.
\<close>

theorem generate_filename_format_counterexample:
  "generate_filename latin1_alnum [201] 7 0 = ascii ''0007_'' @ [201] @ ascii ''.mp3'' \<and>
   generate_filename latin1_alnum [201] 7 0 \<noteq> ascii ''0007__.mp3'' \<and>
   generate_filename latin1_alnum (ascii ''Alice'') 7 100 = ascii ''0007_Alice_chunk_100.mp3''"
proof -
  have "fmt_d 2 100 = [49, 48, 48]" by (simp add: fmt_d_def digits3 zfill_def)
  then show ?thesis
    by (simp add: generate_filename_def fmt_d_4 ascii_def safe_char_ascii safe_char_beyond
        latin1_alnum_def)
qed

section \<open>The chunker\<close>

lemma words_nonempty: "s \<noteq> [] \<Longrightarrow> \<not> isspace (hd s) \<Longrightarrow> words s \<noteq> []"
  by (cases s) (auto split: list.splits, (cases "words (tl s)"; simp)+)

lemma cons_first_append: "ws \<noteq> [] \<Longrightarrow> cons_first c ws @ vs = cons_first c (ws @ vs)"
  by (cases ws) simp_all

lemma words_append_space: "isspace x \<Longrightarrow> words (a @ x # b) = words a @ words b"
proof (induction a)
  case Nil
  then show ?case by simp
next
  case (Cons c a)
  show ?case
  proof (cases "a = []")
    case True
    with Cons show ?thesis by simp
  next
    case False
    then have h: "hd (a @ x # b) = hd a" by simp
    from False have w: "\<not> isspace (hd a) \<Longrightarrow> words a \<noteq> []"
      by (rule words_nonempty)
    from False Cons.IH[OF Cons.prems] w show ?thesis
      by (simp add: h cons_first_append)
  qed
qed

lemma words_spaces: "\<forall>c\<in>set s. isspace c \<Longrightarrow> words s = []"
  by (induction s) simp_all

lemma words_dropWhile: "words (dropWhile isspace s) = words s"
  by (induction s) simp_all

lemma words_append_spaces: "\<forall>c\<in>set sp. isspace c \<Longrightarrow> words (a @ sp) = words a"
  by (cases sp) (simp_all add: words_append_space words_spaces)

lemma words_rstrip: "words (rstrip s) = words s"
proof -
  have "rev s = takeWhile isspace (rev s) @ dropWhile isspace (rev s)" by simp
  then have "s = rev (dropWhile isspace (rev s)) @ rev (takeWhile isspace (rev s))"
    by (metis rev_append rev_rev_ident)
  then have s: "s = rstrip s @ rev (takeWhile isspace (rev s))" by (simp add: rstrip_def)
  have "\<forall>c\<in>set (rev (takeWhile isspace (rev s))). isspace c"
    by (auto dest: set_takeWhileD)
  from words_append_spaces[OF this, of "rstrip s"] s show ?thesis by simp
qed

lemma words_strip: "words (strip s) = words s"
  by (simp add: strip_def lstrip_def words_rstrip words_dropWhile)

lemma isspace_32: "isspace 32"
  by (simp add: isspace_def)

lemma sentence_end_not_space: "sentence_end c \<Longrightarrow> \<not> isspace c"
  by (auto simp: sentence_end_def isspace_def)

lemma re_split_nonempty: "re_split_sentences s \<noteq> []"
  by (cases s) (auto split: list.splits, (cases "re_split_sentences (tl s)"; simp)+)

lemma re_split_first:
  "re_split_sentences s = p # ps \<Longrightarrow> (p = [] \<longleftrightarrow> s = []) \<and> (s \<noteq> [] \<longrightarrow> hd p = hd s)"
proof (cases s)
  case Nil
  assume "re_split_sentences s = p # ps"
  with Nil show ?thesis by simp
next
  case (Cons c cs)
  assume a: "re_split_sentences s = p # ps"
  obtain q qs where q: "re_split_sentences cs = q # qs"
    using re_split_nonempty[of cs] by (cases "re_split_sentences cs") auto
  from a Cons q show ?thesis by (auto split: if_splits)
qed

lemma words_single: "\<not> isspace c \<Longrightarrow> words [c] = [[c]]"
  by simp

lemma words_re_split: "concat (map words (re_split_sentences s)) = words s"
proof (induction s rule: re_split_sentences.induct)
  case 1
  show ?case by simp
next
  case (2 c cs)
  show ?case
  proof (cases "sentence_end c \<and> cs \<noteq> [] \<and> isspace (hd cs)")
    case True
    then have "concat (map words (re_split_sentences (dropWhile isspace cs))) = words cs"
      using 2(1) by (simp add: words_dropWhile)
    with True show ?thesis by (simp add: sentence_end_not_space)
  next
    case False
    then have ih: "concat (map words (re_split_sentences cs)) = words cs"
      using 2(2) by simp
    obtain p ps where r: "re_split_sentences cs = p # ps"
      using re_split_nonempty[of cs] by (cases "re_split_sentences cs") auto
    from re_split_first[OF r] have f: "p = [] \<longleftrightarrow> cs = []" "cs \<noteq> [] \<Longrightarrow> hd p = hd cs"
      by simp_all
    from ih r have ih': "words p @ concat (map words ps) = words cs" by simp
    have "words (c # p) @ concat (map words ps) = words (c # cs)"
    proof (cases "isspace c")
      case True
      with ih' show ?thesis by simp
    next
      case nc: False
      show ?thesis
      proof (cases "cs = []")
        case True
        with f ih' nc show ?thesis by simp
      next
        case ne: False
        then have pne: "p \<noteq> []" and hp: "hd p = hd cs" using f by simp_all
        show ?thesis
        proof (cases "isspace (hd cs)")
          case True
          with nc ne pne hp ih' show ?thesis by simp
        next
          case False
          then have "words p \<noteq> []" using words_nonempty[of p] pne hp by simp
          with False nc ne pne hp ih' show ?thesis
            by (simp add: cons_first_append)
        qed
      qed
    qed
    moreover have "re_split_sentences (c # cs) = (c # p) # ps"
      using False r by auto
    ultimately show ?thesis by (simp del: words.simps re_split_sentences.simps)
  qed
qed

lemma with_spaces_simps:
  "with_spaces [] = []" "with_spaces (g @ [s]) = with_spaces g @ s @ [32]"
  "with_spaces [s] = s @ [32]" "with_spaces (s # g) = s @ 32 # with_spaces g"
  by (simp_all add: with_spaces_def)

lemma with_spaces_empty: "with_spaces g = [] \<longleftrightarrow> g = []"
  by (cases g) (simp_all add: with_spaces_def)

lemma words_with_spaces: "words (with_spaces g) = concat (map words g)"
  by (induction g) (simp_all add: with_spaces_simps words_append_space isspace_32)

lemma words_render: "words (render g) = concat (map words g)"
  by (simp add: render_def words_strip words_with_spaces)

lemma pack_step_fit:
  "int (length (with_spaces g)) + int (length s) + 1 \<le> m \<Longrightarrow>
   pack_step m (map render gs, with_spaces g) s = (map render gs, with_spaces (g @ [s]))"
  by (simp add: pack_step_def with_spaces_simps)

lemma pack_step_flush:
  "\<not> int (length (with_spaces g)) + int (length s) + 1 \<le> m \<Longrightarrow>
   pack_step m (map render gs, with_spaces g) s =
     (map render (if g \<noteq> [] then gs @ [g] else gs), with_spaces [s])"
  by (simp add: pack_step_def with_spaces_simps with_spaces_empty render_def)

lemma pack_fold:
  assumes "[] \<notin> set gs" "\<forall>h\<in>set gs. fits m h" "g = [] \<or> fits m g"
  shows "\<exists>gs' g'. foldl (pack_step m) (map render gs, with_spaces g) ss =
           (map render gs', with_spaces g') \<and>
         concat gs' @ g' = concat gs @ g @ ss \<and> [] \<notin> set gs' \<and>
         (\<forall>h\<in>set gs'. fits m h) \<and> (g' = [] \<or> fits m g')"
  using assms
proof (induction ss arbitrary: gs g)
  case Nil
  then show ?case by auto
next
  case (Cons s ss)
  show ?case
  proof (cases "int (length (with_spaces g)) + int (length s) + 1 \<le> m")
    case True
    then have "fits m (g @ [s])" by (simp add: fits_def with_spaces_simps)
    with Cons.prems have "\<exists>gs' g'. foldl (pack_step m) (map render gs, with_spaces (g @ [s])) ss =
           (map render gs', with_spaces g') \<and>
         concat gs' @ g' = concat gs @ (g @ [s]) @ ss \<and> [] \<notin> set gs' \<and>
         (\<forall>h\<in>set gs'. fits m h) \<and> (g' = [] \<or> fits m g')"
      by (intro Cons.IH) auto
    with True show ?thesis by (simp add: pack_step_fit)
  next
    case False
    let ?gs = "if g \<noteq> [] then gs @ [g] else gs"
    have "fits m [s]" by (simp add: fits_def)
    with Cons.prems have "\<exists>gs' g'. foldl (pack_step m) (map render ?gs, with_spaces [s]) ss =
           (map render gs', with_spaces g') \<and>
         concat gs' @ g' = concat ?gs @ [s] @ ss \<and> [] \<notin> set gs' \<and>
         (\<forall>h\<in>set gs'. fits m h) \<and> (g' = [] \<or> fits m g')"
      by (intro Cons.IH) auto
    moreover have "concat ?gs @ [s] @ ss = concat gs @ g @ s # ss" by simp
    ultimately show ?thesis using False by (simp add: pack_step_flush)
  qed
qed

lemma chunk_text_groups:
  assumes "\<not> int (length text) \<le> m"
  shows "\<exists>groups. concat groups = re_split_sentences text \<and> [] \<notin> set groups \<and>
           chunk_text text m = map render groups \<and> (\<forall>h\<in>set groups. fits m h)"
proof -
  have "\<exists>gs' g'. foldl (pack_step m) (map render [], with_spaces []) (re_split_sentences text) =
           (map render gs', with_spaces g') \<and>
         concat gs' @ g' = concat [] @ [] @ re_split_sentences text \<and> [] \<notin> set gs' \<and>
         (\<forall>h\<in>set gs'. fits m h) \<and> (g' = [] \<or> fits m g')"
    by (intro pack_fold) auto
  then obtain gs' g' where f: "foldl (pack_step m) ([], []) (re_split_sentences text) =
           (map render gs', with_spaces g')"
    and c: "concat gs' @ g' = re_split_sentences text" and n: "[] \<notin> set gs'"
    and a: "\<forall>h\<in>set gs'. fits m h" and l: "g' = [] \<or> fits m g'"
    by (auto simp: with_spaces_simps)
  let ?groups = "if g' \<noteq> [] then gs' @ [g'] else gs'"
  have "chunk_text text m = map render ?groups"
    using assms f by (simp add: chunk_text_def with_spaces_empty render_def)
  moreover have "concat ?groups = re_split_sentences text" using c by auto
  moreover have "[] \<notin> set ?groups" using n by auto
  moreover have "\<forall>h\<in>set ?groups. fits m h" using a l by auto
  ultimately show ?thesis by blast
qed

lemma words_join: "words (join [32] xs) = concat (map words xs)"
  by (induction "[32::nat]" xs rule: join.induct) (simp_all add: words_append_space isspace_32)

lemma chunk_text_words: "words (join [32] (chunk_text text m)) = words text"
proof (cases "int (length text) \<le> m")
  case True
  then show ?thesis by (simp add: chunk_text_def)
next
  case False
  from chunk_text_groups[OF False] obtain groups where
    g: "concat groups = re_split_sentences text" "chunk_text text m = map render groups"
    by blast
  have "words (join [32] (chunk_text text m)) = concat (map (\<lambda>h. concat (map words h)) groups)"
    by (simp add: g(2) words_join comp_def words_render)
  also have "\<dots> = concat (map words (concat groups))"
    by (induction groups) simp_all
  also have "\<dots> = words text" by (simp add: g(1) words_re_split)
  finally show ?thesis .
qed

lemma length_strip: "length (strip s) \<le> length s"
proof -
  have "length (rstrip t) \<le> length t" for t
    using length_dropWhile_le[of isspace "rev t"] by (simp add: rstrip_def)
  from this[of "lstrip s"] length_dropWhile_le[of isspace s] show ?thesis
    by (simp add: strip_def lstrip_def)
qed

lemma rstrip_snoc_space: "rstrip (t @ [32]) = rstrip t"
  by (simp add: rstrip_def isspace_32)

lemma strip_snoc_space: "strip (s @ [32]) = strip s"
proof (cases "\<forall>c\<in>set s. isspace c")
  case True
  then have a: "dropWhile isspace s = []" by simp
  from True have b: "dropWhile isspace (s @ [32]) = []" by (simp add: isspace_32)
  show ?thesis by (simp only: strip_def lstrip_def a b)
next
  case False
  then obtain c where "c \<in> set s" "\<not> isspace c" by blast
  then have "dropWhile isspace (s @ [32]) = dropWhile isspace s @ [32]"
    by (rule dropWhile_append1)
  then show ?thesis by (simp add: strip_def lstrip_def rstrip_snoc_space)
qed

lemma with_spaces_join: "g \<noteq> [] \<Longrightarrow> with_spaces g = join [32] g @ [32]"
  by (induction "[32::nat]" g rule: join.induct) (simp_all add: with_spaces_simps)

lemma render_join: "g \<noteq> [] \<Longrightarrow> render g = strip (join [32] g)"
  by (simp add: render_def with_spaces_join strip_snoc_space)

lemma fits_length:
  assumes "fits m g" "g \<noteq> []"
  shows "int (length (render g)) \<le> m \<or> (\<exists>s. g = [s] \<and> m < int (length s))"
proof (cases "int (length (with_spaces g)) \<le> m")
  case True
  moreover have "length (render g) \<le> length (with_spaces g)"
    by (simp add: render_def length_strip)
  ultimately show ?thesis by simp
next
  case False
  with assms(1) obtain s where s: "g = [s]" by (auto simp: fits_def)
  have "length (render [s]) \<le> length s"
    by (simp add: render_join length_strip)
  with s show ?thesis by (cases "m < int (length s)") auto
qed

lemma rstrip_Nil: "rstrip [] = []"
  by (simp add: rstrip_def)

lemma rstrip_empty_iff: "rstrip t = [] \<longleftrightarrow> (\<forall>x\<in>set t. isspace x)"
  by (simp add: rstrip_def dropWhile_eq_Nil_conv)

lemma rstrip_Cons:
  "rstrip (c # t) = (if rstrip t = [] \<and> isspace c then [] else c # rstrip t)"
proof (cases "\<forall>x\<in>set t. isspace x")
  case True
  then have "dropWhile isspace (rev t @ [c]) = dropWhile isspace [c]"
    by (intro dropWhile_append2) simp
  moreover from True have "rstrip t = []" by (simp add: rstrip_empty_iff)
  ultimately show ?thesis by (simp add: rstrip_def)
next
  case False
  then obtain x where "x \<in> set (rev t)" "\<not> isspace x" by auto
  then have "dropWhile isspace (rev t @ [c]) = dropWhile isspace (rev t) @ [c]"
    by (rule dropWhile_append1)
  moreover from False have "rstrip t \<noteq> []" by (simp add: rstrip_empty_iff)
  ultimately show ?thesis by (simp add: rstrip_def)
qed

lemma words_no_empty: "[] \<notin> set (words s)"
proof (induction s)
  case Nil
  show ?case by simp
next
  case (Cons c s)
  then show ?case by (cases "words s") auto
qed

lemma join_empty_iff: "[] \<notin> set ws \<Longrightarrow> join sep ws = [] \<longleftrightarrow> ws = []"
  by (induction sep ws rule: join.induct) auto

lemma join_Cons: "ws \<noteq> [] \<Longrightarrow> join sep (x # ws) = x @ sep @ join sep ws"
  by (cases ws) simp_all

lemma join_cons_first: "ws \<noteq> [] \<Longrightarrow> join sep (cons_first c ws) = c # join sep ws"
  by (cases ws; cases "tl ws") auto

lemma dropWhile_start: "dropWhile isspace s = [] \<or> \<not> isspace (hd (dropWhile isspace s))"
  by (metis hd_dropWhile)

lemma rstrip_sub_ws:
  "rstrip (sub_ws s) =
     (if s \<noteq> [] \<and> isspace (hd s)
      then (if words s = [] then [] else 32 # join [32] (words s))
      else join [32] (words s))"
proof (induction s rule: sub_ws.induct)
  case 1
  show ?case by (simp add: rstrip_Nil)
next
  case (2 c cs)
  show ?case
  proof (cases "isspace c")
    case True
    let ?d = "dropWhile isspace cs"
    have "rstrip (sub_ws ?d) = join [32] (words ?d)"
      using 2(1)[OF True] dropWhile_start[of cs] by auto
    then have u: "rstrip (sub_ws ?d) = join [32] (words cs)" by (simp add: words_dropWhile)
    have e: "join [32] (words cs) = [] \<longleftrightarrow> words cs = []"
      by (rule join_empty_iff) (rule words_no_empty)
    from True u e show ?thesis by (simp add: rstrip_Cons isspace_32)
  next
    case False
    note ih = 2(2)[OF False]
    have r: "rstrip (sub_ws (c # cs)) = c # rstrip (sub_ws cs)"
      using False by (simp add: rstrip_Cons)
    show ?thesis
    proof (cases "cs = []")
      case True
      with False show ?thesis by (simp add: rstrip_Cons rstrip_Nil)
    next
      case ne: False
      show ?thesis
      proof (cases "isspace (hd cs)")
        case True
        with ne ih have "rstrip (sub_ws cs) = (if words cs = [] then [] else 32 # join [32] (words cs))"
          by simp
        moreover have "words (c # cs) = [c] # words cs" using False True by simp
        ultimately show ?thesis using False r
          by (simp add: join_Cons del: words.simps sub_ws.simps)
      next
        case nsp: False
        with ne ih have "rstrip (sub_ws cs) = join [32] (words cs)" by simp
        moreover have "words cs \<noteq> []" using words_nonempty[OF ne nsp] .
        moreover have "words (c # cs) = cons_first c (words cs)" using False nsp ne by simp
        ultimately show ?thesis using False r
          by (simp add: join_cons_first del: words.simps sub_ws.simps)
      qed
    qed
  qed
qed

lemma lstrip_start: "t = [] \<or> \<not> isspace (hd t) \<Longrightarrow> lstrip t = t"
  by (cases t) (auto simp: lstrip_def)

lemma sub_ws_start: "s = [] \<or> \<not> isspace (hd s) \<Longrightarrow> sub_ws s = [] \<or> \<not> isspace (hd (sub_ws s))"
  by (cases s) auto

lemma collapse_ws_words: "collapse_ws s = join [32] (words s)"
proof (cases "s \<noteq> [] \<and> isspace (hd s)")
  case True
  then obtain c cs where s: "s = c # cs" "isspace c" by (cases s) auto
  let ?d = "dropWhile isspace cs"
  have "lstrip (sub_ws ?d) = sub_ws ?d"
    using sub_ws_start[OF dropWhile_start[of cs]] by (rule lstrip_start)
  then have "lstrip (sub_ws s) = sub_ws ?d"
    using s by (simp add: lstrip_def isspace_32)
  moreover have "rstrip (sub_ws ?d) = join [32] (words ?d)"
    using rstrip_sub_ws[of ?d] dropWhile_start[of cs] by auto
  ultimately show ?thesis using s by (simp add: collapse_ws_def strip_def words_dropWhile)
next
  case False
  then have "lstrip (sub_ws s) = sub_ws s"
    using sub_ws_start[of s] lstrip_start[of "sub_ws s"] by blast
  with False rstrip_sub_ws[of s] show ?thesis by (simp add: collapse_ws_def strip_def)
qed

text \<open>
  C6. Joining the chunks of \<open>chunk_text\<close> with single spaces gives a text with the same
  words in the same order as the input, and the same text as the input once whitespace
  is collapsed the way \<open>clean_text_for_tts\<close> does it (every run of whitespace replaced by
  one space, then trimmed): nothing is dropped, duplicated or reordered.
\<close>

theorem chunk_text_round_trip:
  "collapse_ws (join [32] (chunk_text text m)) = collapse_ws text \<and>
   words (join [32] (chunk_text text m)) = words text"
  by (simp add: collapse_ws_words chunk_text_words)

lemma weave_cons_first: "weave (cons_first c (p # ps)) seps = c # weave (p # ps) seps"
  by (cases ps; cases seps) simp_all

lemma weave_split: "r \<noteq> [] \<Longrightarrow> weave (p # r) (sep # seps) = p @ sep @ weave r seps"
  by (cases r) simp_all

lemma boundaries_cons_first:
  assumes "boundaries (p # ps) seps"
  shows "boundaries (cons_first c (p # ps)) seps"
proof (cases ps)
  case Nil
  with assms show ?thesis by (simp add: boundaries_def)
next
  case (Cons q qs)
  with assms show ?thesis by (auto simp: boundaries_def)
qed

lemma re_split_boundaries:
  "\<exists>seps. boundaries (re_split_sentences s) seps \<and> weave (re_split_sentences s) seps = s"
proof (induction s rule: re_split_sentences.induct)
  case 1
  show ?case by (intro exI[of _ "[]"]) (simp add: boundaries_def)
next
  case (2 c cs)
  show ?case
  proof (cases "sentence_end c \<and> cs \<noteq> [] \<and> isspace (hd cs)")
    case True
    let ?d = "dropWhile isspace cs"
    let ?sep = "takeWhile isspace cs"
    from 2(1) True obtain seps where b: "boundaries (re_split_sentences ?d) seps"
      and w: "weave (re_split_sentences ?d) seps = ?d" by auto
    have r: "re_split_sentences (c # cs) = [c] # re_split_sentences ?d" using True by simp
    have ne: "re_split_sentences ?d \<noteq> []" by (rule re_split_nonempty)
    have sep: "?sep \<noteq> []" "\<forall>x\<in>set ?sep. isspace x"
      using True by (cases cs, auto dest: set_takeWhileD)
    have "boundaries ([c] # re_split_sentences ?d) (?sep # seps)"
      using b ne sep True by (auto simp: boundaries_def)
    moreover have "weave ([c] # re_split_sentences ?d) (?sep # seps) = c # cs"
      using w ne by (simp add: weave_split)
    ultimately show ?thesis unfolding r by blast
  next
    case False
    from 2(2) False obtain seps where b: "boundaries (re_split_sentences cs) seps"
      and w: "weave (re_split_sentences cs) seps = cs" by auto
    obtain p ps where ps: "re_split_sentences cs = p # ps"
      using re_split_nonempty[of cs] by (cases "re_split_sentences cs") auto
    have r: "re_split_sentences (c # cs) = cons_first c (p # ps)" using False ps by auto
    have "boundaries (cons_first c (p # ps)) seps"
      using b ps boundaries_cons_first by simp
    moreover have "weave (cons_first c (p # ps)) seps = c # cs"
      using w ps by (simp only: weave_cons_first)
    ultimately show ?thesis unfolding r by blast
  qed
qed

lemma has_boundary_Cons:
  "has_boundary (c # p) = ((sentence_end c \<and> p \<noteq> [] \<and> isspace (hd p)) \<or> has_boundary p)"
  by (cases p) simp_all

lemma has_boundary_nth:
  "has_boundary p \<longleftrightarrow> (\<exists>i. Suc i < length p \<and> sentence_end (p ! i) \<and> isspace (p ! Suc i))"
proof (induction p rule: has_boundary.induct)
  case 1
  show ?case by simp
next
  case (2 c)
  show ?case by simp
next
  case (3 c d cs)
  show ?case
  proof
    assume "has_boundary (c # d # cs)"
    then consider "sentence_end c \<and> isspace d" | "has_boundary (d # cs)" by auto
    then show "\<exists>i. Suc i < length (c # d # cs) \<and> sentence_end ((c # d # cs) ! i) \<and>
        isspace ((c # d # cs) ! Suc i)"
    proof cases
      case 1
      then show ?thesis by (intro exI[of _ 0]) simp
    next
      case 2
      with 3 obtain i where "Suc i < length (d # cs)" "sentence_end ((d # cs) ! i)"
        "isspace ((d # cs) ! Suc i)" by blast
      then show ?thesis by (intro exI[of _ "Suc i"]) simp
    qed
  next
    assume "\<exists>i. Suc i < length (c # d # cs) \<and> sentence_end ((c # d # cs) ! i) \<and>
        isspace ((c # d # cs) ! Suc i)"
    then obtain i where i: "Suc i < length (c # d # cs)" "sentence_end ((c # d # cs) ! i)"
        "isspace ((c # d # cs) ! Suc i)" by blast
    show "has_boundary (c # d # cs)"
    proof (cases i)
      case 0
      with i show ?thesis by simp
    next
      case (Suc j)
      with i have "Suc j < length (d # cs) \<and> sentence_end ((d # cs) ! j) \<and>
        isspace ((d # cs) ! Suc j)" by simp
      with 3 have "has_boundary (d # cs)" by blast
      then show ?thesis by simp
    qed
  qed
qed

lemma re_split_no_boundary: "\<forall>p\<in>set (re_split_sentences s). \<not> has_boundary p"
proof (induction s rule: re_split_sentences.induct)
  case 1
  show ?case by simp
next
  case (2 c cs)
  show ?case
  proof (cases "sentence_end c \<and> cs \<noteq> [] \<and> isspace (hd cs)")
    case True
    with 2(1) show ?thesis by simp
  next
    case False
    with 2(2) have ih: "\<forall>p\<in>set (re_split_sentences cs). \<not> has_boundary p" by simp
    obtain p ps where ps: "re_split_sentences cs = p # ps"
      using re_split_nonempty[of cs] by (cases "re_split_sentences cs") auto
    from re_split_first[OF ps] have f: "p = [] \<longleftrightarrow> cs = []" "cs \<noteq> [] \<Longrightarrow> hd p = hd cs"
      by simp_all
    have r: "re_split_sentences (c # cs) = (c # p) # ps" using False ps by auto
    have "\<not> has_boundary (c # p)"
      using False f ih ps by (auto simp: has_boundary_Cons)
    with ih ps show ?thesis unfolding r by simp
  qed
qed

lemma re_split_starts: "\<forall>p\<in>set (tl (re_split_sentences s)). p = [] \<or> \<not> isspace (hd p)"
proof (induction s rule: re_split_sentences.induct)
  case 1
  show ?case by simp
next
  case (2 c cs)
  show ?case
  proof (cases "sentence_end c \<and> cs \<noteq> [] \<and> isspace (hd cs)")
    case True
    let ?d = "dropWhile isspace cs"
    obtain p ps where ps: "re_split_sentences ?d = p # ps"
      using re_split_nonempty[of ?d] by (cases "re_split_sentences ?d") auto
    from re_split_first[OF ps] dropWhile_start[of cs]
    have "p = [] \<or> \<not> isspace (hd p)" by auto
    moreover from 2(1) True ps have "\<forall>q\<in>set ps. q = [] \<or> \<not> isspace (hd q)" by simp
    ultimately show ?thesis using True ps by simp
  next
    case False
    obtain p ps where ps: "re_split_sentences cs = p # ps"
      using re_split_nonempty[of cs] by (cases "re_split_sentences cs") auto
    have r: "re_split_sentences (c # cs) = (c # p) # ps" using False ps by auto
    from 2(2) False ps show ?thesis unfolding r by simp
  qed
qed

lemma greedy_snoc:
  "greedy m (gs @ [g]) \<Longrightarrow> overflow m g h \<Longrightarrow> greedy m (gs @ [g, h])"
proof (induction gs)
  case Nil
  then show ?case by simp
next
  case (Cons x gs)
  then show ?case by (cases gs) simp_all
qed

lemma greedy_replace:
  "greedy m (gs @ [g]) \<Longrightarrow> hd g' = hd g \<Longrightarrow> greedy m (gs @ [g'])"
proof (induction gs)
  case Nil
  then show ?case by simp
next
  case (Cons x gs)
  then show ?case by (cases gs) (simp_all add: overflow_def)
qed

lemma greedy_nth:
  "greedy m gs \<longleftrightarrow> (\<forall>i. Suc i < length gs \<longrightarrow> overflow m (gs ! i) (gs ! Suc i))"
proof (induction m gs rule: greedy.induct)
  case (1 m g h gs)
  show ?case
  proof
    assume a: "greedy m (g # h # gs)"
    show "\<forall>i. Suc i < length (g # h # gs) \<longrightarrow>
        overflow m ((g # h # gs) ! i) ((g # h # gs) ! Suc i)"
    proof (intro allI impI)
      fix i assume "Suc i < length (g # h # gs)"
      with a 1 show "overflow m ((g # h # gs) ! i) ((g # h # gs) ! Suc i)"
        by (cases i) auto
    qed
  next
    assume a: "\<forall>i. Suc i < length (g # h # gs) \<longrightarrow>
        overflow m ((g # h # gs) ! i) ((g # h # gs) ! Suc i)"
    then have "overflow m g h" by (auto dest: spec[of _ 0])
    moreover have "\<forall>i. Suc i < length (h # gs) \<longrightarrow> overflow m ((h # gs) ! i) ((h # gs) ! Suc i)"
    proof (intro allI impI)
      fix i assume "Suc i < length (h # gs)"
      with a show "overflow m ((h # gs) ! i) ((h # gs) ! Suc i)"
        by (auto dest: spec[of _ "Suc i"])
    qed
    ultimately show "greedy m (g # h # gs)" using 1 by simp
  qed
qed simp_all

lemma pack_fold_greedy:
  assumes "[] \<notin> set gs" "\<forall>h\<in>set gs. fits m h" "g = [] \<or> fits m g"
    and "greedy m (if g \<noteq> [] then gs @ [g] else gs)" "g = [] \<longrightarrow> gs = []"
  shows "\<exists>gs' g'. foldl (pack_step m) (map render gs, with_spaces g) ss =
           (map render gs', with_spaces g') \<and>
         concat gs' @ g' = concat gs @ g @ ss \<and> [] \<notin> set gs' \<and>
         (\<forall>h\<in>set gs'. fits m h) \<and> (g' = [] \<or> fits m g') \<and>
         greedy m (if g' \<noteq> [] then gs' @ [g'] else gs')"
  using assms
proof (induction ss arbitrary: gs g)
  case Nil
  then show ?case by (intro exI[of _ gs] exI[of _ g]) simp
next
  case (Cons s ss)
  show ?case
  proof (cases "int (length (with_spaces g)) + int (length s) + 1 \<le> m")
    case True
    then have f: "fits m (g @ [s])" by (simp add: fits_def with_spaces_simps)
    have gr: "greedy m (gs @ [g @ [s]])"
    proof (cases "g = []")
      case True
      with Cons.prems(5) show ?thesis by simp
    next
      case False
      with Cons.prems(4) have "greedy m (gs @ [g])" by simp
      moreover from False have "hd (g @ [s]) = hd g" by simp
      ultimately show ?thesis by (rule greedy_replace)
    qed
    have "\<exists>gs' g'. foldl (pack_step m) (map render gs, with_spaces (g @ [s])) ss =
           (map render gs', with_spaces g') \<and>
         concat gs' @ g' = concat gs @ (g @ [s]) @ ss \<and> [] \<notin> set gs' \<and>
         (\<forall>h\<in>set gs'. fits m h) \<and> (g' = [] \<or> fits m g') \<and>
         greedy m (if g' \<noteq> [] then gs' @ [g'] else gs')"
      using Cons.prems(1,2) f gr by (intro Cons.IH) auto
    with True show ?thesis by (simp add: pack_step_fit)
  next
    case False
    let ?gs = "if g \<noteq> [] then gs @ [g] else gs"
    have f: "fits m [s]" by (simp add: fits_def)
    have gr: "greedy m (?gs @ [[s]])"
    proof (cases "g = []")
      case True
      with Cons.prems(5) show ?thesis by simp
    next
      case ne: False
      with Cons.prems(4) have "greedy m (gs @ [g])" by simp
      moreover have "overflow m g [s]" using False by (simp add: overflow_def)
      ultimately have "greedy m (gs @ [g, [s]])" by (rule greedy_snoc)
      with ne show ?thesis by simp
    qed
    have "\<exists>gs' g'. foldl (pack_step m) (map render ?gs, with_spaces [s]) ss =
           (map render gs', with_spaces g') \<and>
         concat gs' @ g' = concat ?gs @ [s] @ ss \<and> [] \<notin> set gs' \<and>
         (\<forall>h\<in>set gs'. fits m h) \<and> (g' = [] \<or> fits m g') \<and>
         greedy m (if g' \<noteq> [] then gs' @ [g'] else gs')"
      using Cons.prems(1,2,3) f gr by (intro Cons.IH) auto
    moreover have "concat ?gs @ [s] @ ss = concat gs @ g @ s # ss" by simp
    ultimately show ?thesis using False by (simp add: pack_step_flush)
  qed
qed

lemma chunk_text_groups_greedy:
  assumes "\<not> int (length text) \<le> m"
  shows "\<exists>groups. concat groups = re_split_sentences text \<and> [] \<notin> set groups \<and>
           chunk_text text m = map render groups \<and> (\<forall>h\<in>set groups. fits m h) \<and>
           greedy m groups"
proof -
  have "\<exists>gs' g'. foldl (pack_step m) (map render [], with_spaces []) (re_split_sentences text) =
           (map render gs', with_spaces g') \<and>
         concat gs' @ g' = concat [] @ [] @ re_split_sentences text \<and> [] \<notin> set gs' \<and>
         (\<forall>h\<in>set gs'. fits m h) \<and> (g' = [] \<or> fits m g') \<and>
         greedy m (if g' \<noteq> [] then gs' @ [g'] else gs')"
    by (intro pack_fold_greedy) auto
  then obtain gs' g' where f: "foldl (pack_step m) ([], []) (re_split_sentences text) =
           (map render gs', with_spaces g')"
    and c: "concat gs' @ g' = re_split_sentences text" and n: "[] \<notin> set gs'"
    and a: "\<forall>h\<in>set gs'. fits m h" and l: "g' = [] \<or> fits m g'"
    and gr: "greedy m (if g' \<noteq> [] then gs' @ [g'] else gs')"
    by (auto simp: with_spaces_simps)
  let ?groups = "if g' \<noteq> [] then gs' @ [g'] else gs'"
  have "chunk_text text m = map render ?groups"
    using assms f by (simp add: chunk_text_def with_spaces_empty render_def)
  moreover have "concat ?groups = re_split_sentences text" using c by auto
  moreover have "[] \<notin> set ?groups" using n by auto
  moreover have "\<forall>h\<in>set ?groups. fits m h" using a l by auto
  ultimately show ?thesis using gr by blast
qed

lemma overflow_join:
  "g \<noteq> [] \<Longrightarrow>
   overflow m g h = (m < int (length (join [32] g)) + 1 + int (length (hd h)) + 1)"
  by (simp add: overflow_def with_spaces_join)

text \<open>
  C7. A text no longer than the maximum is returned as the only chunk. A longer text is cut
  into the pieces of \<open>re_split_sentences\<close>, which are its sentences: the text is these
  pieces with non-empty runs of whitespace between them, every piece before such a run
  ends in \<open>.\<close>, \<open>!\<close> or \<open>?\<close>, every piece after such a run starts without whitespace (the
  whole run is the separator), and no piece holds a \<open>.\<close>, \<open>!\<close> or \<open>?\<close> that is directly
  followed by whitespace, so every sentence boundary of the text is a cut. The chunks are
  consecutive groups of these pieces, each group joined by single spaces and trimmed; no
  group is empty, no piece is left out or cut, and a chunk is longer than the maximum only
  if it is a single piece that is itself longer than the maximum. The grouping is greedy:
  a group ends only where the group with its trailing space, the next piece and one more
  character exceed the maximum.
\<close>

theorem chunk_text_sentences:
  "(int (length text) \<le> m \<longrightarrow> chunk_text text m = [text]) \<and>
   (m < int (length text) \<longrightarrow>
      (\<exists>groups seps.
         boundaries (re_split_sentences text) seps \<and>
         weave (re_split_sentences text) seps = text \<and>
         (\<forall>p\<in>set (re_split_sentences text).
            \<not> (\<exists>i. Suc i < length p \<and> sentence_end (p ! i) \<and> isspace (p ! Suc i))) \<and>
         (\<forall>p\<in>set (tl (re_split_sentences text)). p = [] \<or> \<not> isspace (hd p)) \<and>
         concat groups = re_split_sentences text \<and> [] \<notin> set groups \<and>
         chunk_text text m = map (\<lambda>g. strip (join [32] g)) groups \<and>
         (\<forall>g\<in>set groups. int (length (strip (join [32] g))) \<le> m \<or>
            (\<exists>s. g = [s] \<and> m < int (length s))) \<and>
         (\<forall>i. Suc i < length groups \<longrightarrow>
            m < int (length (join [32] (groups ! i))) + 1 +
                int (length (hd (groups ! Suc i))) + 1)))"
proof (intro conjI impI)
  assume "int (length text) \<le> m"
  then show "chunk_text text m = [text]" by (simp add: chunk_text_def)
next
  assume "m < int (length text)"
  then have "\<not> int (length text) \<le> m" by simp
  from chunk_text_groups_greedy[OF this] obtain groups where
    g: "concat groups = re_split_sentences text" "[] \<notin> set groups"
      "chunk_text text m = map render groups" "\<forall>h\<in>set groups. fits m h"
      "greedy m groups"
    by blast
  from re_split_boundaries[of "text"] obtain seps where
    b: "boundaries (re_split_sentences text) seps" "weave (re_split_sentences text) seps = text"
    by blast
  have nb: "\<forall>p\<in>set (re_split_sentences text).
      \<not> (\<exists>i. Suc i < length p \<and> sentence_end (p ! i) \<and> isspace (p ! Suc i))"
    using re_split_no_boundary[of "text"] by (simp add: has_boundary_nth)
  have st: "\<forall>p\<in>set (tl (re_split_sentences text)). p = [] \<or> \<not> isspace (hd p)"
    by (rule re_split_starts)
  have r: "\<forall>h\<in>set groups. render h = strip (join [32] h)"
    using g(2) render_join by metis
  then have m: "map render groups = map (\<lambda>g. strip (join [32] g)) groups" by simp
  have l: "\<forall>h\<in>set groups. int (length (strip (join [32] h))) \<le> m \<or>
            (\<exists>s. h = [s] \<and> m < int (length s))"
  proof
    fix h assume h: "h \<in> set groups"
    with g(2) have "h \<noteq> []" by auto
    with g(4) h fits_length[of m h] r show "int (length (strip (join [32] h))) \<le> m \<or>
            (\<exists>s. h = [s] \<and> m < int (length s))" by auto
  qed
  have gr: "\<forall>i. Suc i < length groups \<longrightarrow>
            m < int (length (join [32] (groups ! i))) + 1 +
                int (length (hd (groups ! Suc i))) + 1"
  proof (intro allI impI)
    fix i assume i: "Suc i < length groups"
    then have "groups ! i \<in> set groups" by simp
    with g(2) have ne: "groups ! i \<noteq> []" by metis
    from g(5) i have "overflow m (groups ! i) (groups ! Suc i)" by (simp add: greedy_nth)
    then show "m < int (length (join [32] (groups ! i))) + 1 +
                int (length (hd (groups ! Suc i))) + 1"
      by (simp only: overflow_join[OF ne])
  qed
  show "\<exists>groups seps.
         boundaries (re_split_sentences text) seps \<and>
         weave (re_split_sentences text) seps = text \<and>
         (\<forall>p\<in>set (re_split_sentences text).
            \<not> (\<exists>i. Suc i < length p \<and> sentence_end (p ! i) \<and> isspace (p ! Suc i))) \<and>
         (\<forall>p\<in>set (tl (re_split_sentences text)). p = [] \<or> \<not> isspace (hd p)) \<and>
         concat groups = re_split_sentences text \<and> [] \<notin> set groups \<and>
         chunk_text text m = map (\<lambda>g. strip (join [32] g)) groups \<and>
         (\<forall>g\<in>set groups. int (length (strip (join [32] g))) \<le> m \<or>
            (\<exists>s. g = [s] \<and> m < int (length s))) \<and>
         (\<forall>i. Suc i < length groups \<longrightarrow>
            m < int (length (join [32] (groups ! i))) + 1 +
                int (length (hd (groups ! Suc i))) + 1)"
    using b g(1,2,3) m l nb st gr by (intro exI[of _ groups] exI[of _ seps]) simp
qed

text \<open>The chunker on \<open>demo_text\<close> with a maximum of 8.\<close>

lemma demo_text_eval:
  "demo_text = [72, 105, 46, 32, 32, 89, 111, 33, 32, 65, 98, 99, 100, 101, 102, 103, 104, 105, 106, 46, 10, 90, 32]"
  by (simp add: demo_text_def ascii_def)

lemma demo_sentences:
  "re_split_sentences demo_text =
     [[72, 105, 46], [89, 111, 33], [65, 98, 99, 100, 101, 102, 103, 104, 105, 106, 46], [90, 32]]"
  by (simp add: demo_text_eval sentence_end_def isspace_def)

lemma demo_strip:
  "strip [72, 105, 46, 32, 89, 111, 33, 32] = [72, 105, 46, 32, 89, 111, 33]"
  "strip [65, 98, 99, 100, 101, 102, 103, 104, 105, 106, 46, 32] = [65, 98, 99, 100, 101, 102, 103, 104, 105, 106, 46]"
  "strip [90, 32, 32] = [90]"
  by (simp_all add: strip_def lstrip_def rstrip_def isspace_def)

lemma demo_chunks:
  "chunk_text demo_text 8 =
     [[72, 105, 46, 32, 89, 111, 33], [65, 98, 99, 100, 101, 102, 103, 104, 105, 106, 46], [90]]"
  unfolding chunk_text_def demo_sentences
  by (simp add: demo_text_eval pack_step_def demo_strip)

lemma demo_collapse:
  "collapse_ws demo_text = [72, 105, 46, 32, 89, 111, 33, 32, 65, 98, 99, 100, 101, 102, 103, 104, 105, 106, 46, 32, 90]"
  by (simp add: collapse_ws_def demo_text_eval isspace_def strip_def lstrip_def rstrip_def)

theorem chunk_text_round_trip_witness:
  "collapse_ws (join [32] (chunk_text demo_text 8)) =
     [72, 105, 46, 32, 89, 111, 33, 32, 65, 98, 99, 100, 101, 102, 103, 104, 105, 106, 46, 32, 90] \<and>
   chunk_text demo_text 8 =
     [[72, 105, 46, 32, 89, 111, 33], [65, 98, 99, 100, 101, 102, 103, 104, 105, 106, 46], [90]]"
  using chunk_text_round_trip[of demo_text 8] by (simp add: demo_collapse demo_chunks)

text \<open>The chunker on \<open>demo_question\<close> with a maximum of 8.\<close>

lemma question_eval:
  "demo_question = [72, 105, 63, 32, 32, 89, 111, 46, 32, 65, 98, 99, 100, 101, 102, 103, 104, 105, 106, 33, 10, 90, 32]"
  by (simp add: demo_question_def ascii_def)

lemma question_sentences:
  "re_split_sentences demo_question =
     [[72, 105, 63], [89, 111, 46], [65, 98, 99, 100, 101, 102, 103, 104, 105, 106, 33], [90, 32]]"
  by (simp add: question_eval sentence_end_def isspace_def)

lemma question_strip:
  "strip [72, 105, 63, 32, 89, 111, 46, 32] = [72, 105, 63, 32, 89, 111, 46]"
  "strip [65, 98, 99, 100, 101, 102, 103, 104, 105, 106, 33, 32] = [65, 98, 99, 100, 101, 102, 103, 104, 105, 106, 33]"
  "strip [90, 32, 32] = [90]"
  by (simp_all add: strip_def lstrip_def rstrip_def isspace_def)

lemma question_chunks:
  "chunk_text demo_question 8 =
     [[72, 105, 63, 32, 89, 111, 46], [65, 98, 99, 100, 101, 102, 103, 104, 105, 106, 33], [90]]"
  unfolding chunk_text_def question_sentences
  by (simp add: question_eval pack_step_def question_strip)

theorem chunk_text_sentences_witness:
  "8 < int (length demo_question) \<and>
   (\<exists>groups seps.
         boundaries (re_split_sentences demo_question) seps \<and>
         weave (re_split_sentences demo_question) seps = demo_question \<and>
         (\<forall>p\<in>set (re_split_sentences demo_question).
            \<not> (\<exists>i. Suc i < length p \<and> sentence_end (p ! i) \<and> isspace (p ! Suc i))) \<and>
         (\<forall>p\<in>set (tl (re_split_sentences demo_question)). p = [] \<or> \<not> isspace (hd p)) \<and>
         concat groups = re_split_sentences demo_question \<and> [] \<notin> set groups \<and>
         chunk_text demo_question 8 = map (\<lambda>g. strip (join [32] g)) groups \<and>
         (\<forall>g\<in>set groups. int (length (strip (join [32] g))) \<le> 8 \<or>
            (\<exists>s. g = [s] \<and> 8 < int (length s))) \<and>
         (\<forall>i. Suc i < length groups \<longrightarrow>
            8 < int (length (join [32] (groups ! i))) + 1 +
                int (length (hd (groups ! Suc i))) + 1)) \<and>
   re_split_sentences demo_question =
     [[72, 105, 63], [89, 111, 46], [65, 98, 99, 100, 101, 102, 103, 104, 105, 106, 33], [90, 32]] \<and>
   chunk_text demo_question 8 =
     [[72, 105, 63, 32, 89, 111, 46], [65, 98, 99, 100, 101, 102, 103, 104, 105, 106, 33], [90]] \<and>
   chunk_text [72, 105, 63] 8 = [[72, 105, 63]]"
proof -
  have h: "8 < int (length demo_question)" by (simp add: question_eval)
  have s: "int (length [72, 105, 63 :: nat]) \<le> 8" by simp
  have a: "\<exists>groups seps.
         boundaries (re_split_sentences demo_question) seps \<and>
         weave (re_split_sentences demo_question) seps = demo_question \<and>
         (\<forall>p\<in>set (re_split_sentences demo_question).
            \<not> (\<exists>i. Suc i < length p \<and> sentence_end (p ! i) \<and> isspace (p ! Suc i))) \<and>
         (\<forall>p\<in>set (tl (re_split_sentences demo_question)). p = [] \<or> \<not> isspace (hd p)) \<and>
         concat groups = re_split_sentences demo_question \<and> [] \<notin> set groups \<and>
         chunk_text demo_question 8 = map (\<lambda>g. strip (join [32] g)) groups \<and>
         (\<forall>g\<in>set groups. int (length (strip (join [32] g))) \<le> 8 \<or>
            (\<exists>s. g = [s] \<and> 8 < int (length s))) \<and>
         (\<forall>i. Suc i < length groups \<longrightarrow>
            8 < int (length (join [32] (groups ! i))) + 1 +
                int (length (hd (groups ! Suc i))) + 1)"
    using chunk_text_sentences[of demo_question 8, THEN conjunct2] h by (rule mp)
  have b: "chunk_text [72, 105, 63] 8 = [[72, 105, 63]]"
    using chunk_text_sentences[of "[72, 105, 63]" 8, THEN conjunct1] s by (rule mp)
  from h a b question_sentences question_chunks show ?thesis by (intro conjI)
qed

end
